theory Spec2Isabelle
  imports Complex_Main "HOL-Library.Sublist"
begin

section \<open>Characters and strings\<close>

text \<open>
  A Python \<open>str\<close> is a sequence of Unicode code points. The model takes the code
  points below 256, which are the values of HOL's \<open>char\<close>; every character that the
  patterns of \<open>preprocessor.py\<close> and the keywords of \<open>model.py\<close> mention lies in this
  range. The character classes below are those of Python's \<open>re\<close> module for \<open>str\<close>
  patterns (\<open>\s\<close> is \<open>str.isspace\<close>, \<open>\d\<close> is the decimal digits, \<open>\w\<close> is
  \<open>str.isalnum\<close> or the underscore) and \<open>str.lower\<close>, restricted to that range.
\<close>

definition is_space :: "char \<Rightarrow> bool" where
  "is_space c =
     (let n = (of_char c :: nat)
      in (9 \<le> n \<and> n \<le> 13) \<or> (28 \<le> n \<and> n \<le> 32) \<or> n = 133 \<or> n = 160)"

definition is_digit :: "char \<Rightarrow> bool" where
  "is_digit c = (let n = (of_char c :: nat) in 48 \<le> n \<and> n \<le> 57)"

definition is_word :: "char \<Rightarrow> bool" where
  "is_word c =
     (let n = (of_char c :: nat)
      in (48 \<le> n \<and> n \<le> 57) \<or> (65 \<le> n \<and> n \<le> 90) \<or> n = 95 \<or> (97 \<le> n \<and> n \<le> 122)
         \<or> n = 170 \<or> n = 178 \<or> n = 179 \<or> n = 181 \<or> n = 185 \<or> n = 186
         \<or> (188 \<le> n \<and> n \<le> 190) \<or> (192 \<le> n \<and> n \<le> 214) \<or> (216 \<le> n \<and> n \<le> 246)
         \<or> 248 \<le> n)"

definition lower_char :: "char \<Rightarrow> char" where
  "lower_char c =
     (let n = (of_char c :: nat)
      in if (65 \<le> n \<and> n \<le> 90) \<or> (192 \<le> n \<and> n \<le> 214) \<or> (216 \<le> n \<and> n \<le> 222)
         then char_of (n + 32) else c)"

text \<open>\<open>str.lower()\<close>.\<close>

definition str_lower :: "string \<Rightarrow> string" where
  "str_lower s = map lower_char s"

text \<open>\<open>str.strip()\<close>: leading and trailing whitespace removed.\<close>

definition str_strip :: "string \<Rightarrow> string" where
  "str_strip s = rev (dropWhile is_space (rev (dropWhile is_space s)))"

text \<open>\<open>str.split()\<close>: the maximal runs of characters that are not whitespace.\<close>

fun str_split :: "string \<Rightarrow> string list" where
  "str_split [] = []"
| "str_split (c # cs) =
     (if is_space c then str_split cs
      else (case str_split cs of
              [] \<Rightarrow> [[c]]
            | w # ws \<Rightarrow> (case cs of
                          [] \<Rightarrow> [[c]]
                        | d # ds \<Rightarrow> if is_space d then [c] # w # ws else (c # w) # ws)))"

text \<open>\<open>" ".join(tokens)\<close>.\<close>

fun str_join :: "string list \<Rightarrow> string" where
  "str_join [] = []"
| "str_join [w] = w"
| "str_join (w # ws) = w @ CHR '' '' # str_join ws"

text \<open>
  Matching a literal at the head of the text: the text after it, or \<open>None\<close>.
\<close>

fun lit :: "string \<Rightarrow> string \<Rightarrow> string option" where
  "lit [] s = Some s"
| "lit (p # ps) [] = None"
| "lit (p # ps) (c # cs) = (if p = c then lit ps cs else None)"

text \<open>
  An optional character (\<open>\r?\<close>, \<open>s?\<close>): greedy, it is taken when it is there. In the
  patterns below the item after it never starts with that character, so backtracking to
  the empty alternative cannot succeed where the greedy one fails.
\<close>

fun opt_char :: "char \<Rightarrow> string \<Rightarrow> string" where
  "opt_char x [] = []"
| "opt_char x (c # cs) = (if c = x then cs else c # cs)"

section \<open>\<open>preprocessor.py\<close>: \<open>EmailPreprocessor\<close>\<close>

record EmailPreprocessor =
  strip_headers :: bool
  lowercase :: bool
  replace_urls :: bool
  replace_numbers :: bool
  remove_punctuation :: bool
  do_stemming :: bool

text \<open>The defaults of \<open>__init__\<close>.\<close>

definition default_preprocessor :: EmailPreprocessor where
  "default_preprocessor =
     \<lparr> strip_headers = True, lowercase = True, replace_urls = True,
       replace_numbers = True, remove_punctuation = True, do_stemming = False \<rparr>"

subsection \<open>\<open>_strip_headers\<close>\<close>

text \<open>
  The pattern \<open>\r?\n\r?\n\<close> at the head of the text: the text after the match.
\<close>

definition match_blank :: "string \<Rightarrow> string option" where
  "match_blank s =
     (case lit [CHR 0x0A] (opt_char (CHR 0x0D) s) of
        None \<Rightarrow> None
      | Some r \<Rightarrow> lit [CHR 0x0A] (opt_char (CHR 0x0D) r))"

text \<open>
  \<open>re.split(pattern, text, maxsplit=1)\<close>: the text is cut at the leftmost match; the
  parts are the text before the match and the text after it, or the text alone when
  nothing matches.
\<close>

fun re_split1 :: "string \<Rightarrow> string list" where
  "re_split1 [] = [[]]"
| "re_split1 (c # cs) =
     (case match_blank (c # cs) of
        Some r \<Rightarrow> [[], r]
      | None \<Rightarrow> (case re_split1 cs of
                   [p, r] \<Rightarrow> [c # p, r]
                 | _ \<Rightarrow> [c # cs]))"

definition strip_headers_fn :: "string \<Rightarrow> string" where
  "strip_headers_fn text =
     (let parts = re_split1 text in if length parts > 1 then parts ! 1 else text)"

subsection \<open>\<open>_replace_urls\<close>\<close>

text \<open>\<open>\S+\<close>: a run of at least one character that is not whitespace, taken whole.\<close>

definition nonspace_plus :: "string \<Rightarrow> string option" where
  "nonspace_plus s =
     (if takeWhile (\<lambda>c. \<not> is_space c) s = [] then None
      else Some (dropWhile (\<lambda>c. \<not> is_space c) s))"

text \<open>
  The pattern \<open>https?://\S+|www\.\S+\<close> at the head of the text: the text after the
  match. The second alternative is tried when the first fails.
\<close>

definition url_match :: "string \<Rightarrow> string option" where
  "url_match s =
     (case (case lit ''http'' s of
              None \<Rightarrow> None
            | Some r \<Rightarrow> (case lit ''://'' (opt_char CHR ''s'' r) of
                          None \<Rightarrow> None
                        | Some r' \<Rightarrow> nonspace_plus r')) of
        Some r \<Rightarrow> Some r
      | None \<Rightarrow> (case lit ''www.'' s of
                   None \<Rightarrow> None
                 | Some r \<Rightarrow> nonspace_plus r))"

text \<open>
  \<open>re.sub(pattern, ' URL ', text)\<close>: scanning from the left, a match is replaced by
  the token and the scan goes on after it; a character where nothing matches is kept.
  The token is a parameter, \<open>'' URL ''\<close> in the source.
\<close>

function url_sub :: "string \<Rightarrow> string \<Rightarrow> string" where
  "url_sub tok [] = []"
| "url_sub tok (c # cs) =
     (case url_match (c # cs) of
        Some r \<Rightarrow> tok @ url_sub tok r
      | None \<Rightarrow> c # url_sub tok cs)"
  by pat_completeness auto
termination
proof (relation "measure (\<lambda>(tok, s). length s)")
  have lit_eq: "length r + length p = length s" if "lit p s = Some r" for p s r
    using that by (induction p s rule: lit.induct) (auto split: if_splits)
  have lit_len: "length r < length s" if "lit p s = Some r" "p \<noteq> []" for p s r
    using lit_eq [OF that(1)] that(2) by (cases p) auto
  have ns_len: "length r \<le> length s" if "nonspace_plus s = Some r" for s r
    using that by (auto simp: nonspace_plus_def length_dropWhile_le split: if_splits)
  have opt_len: "length (opt_char x s) \<le> length s" for x s
    by (cases s) auto
  fix tok :: string and c cs r
  assume m: "url_match (c # cs) = Some r"
  have "length r < length (c # cs)"
  proof (cases "lit ''http'' (c # cs)")
    case None
    with m obtain r1 where a: "lit ''www.'' (c # cs) = Some r1" and b: "nonspace_plus r1 = Some r"
      by (auto simp: url_match_def split: option.splits)
    from lit_len [OF a] ns_len [OF b] show ?thesis by simp
  next
    case (Some r1)
    show ?thesis
    proof (cases "lit ''://'' (opt_char CHR ''s'' r1)")
      case None
      with m Some obtain r2 where a: "lit ''www.'' (c # cs) = Some r2"
        and b: "nonspace_plus r2 = Some r"
        by (auto simp: url_match_def split: option.splits)
      from lit_len [OF a] ns_len [OF b] show ?thesis by simp
    next
      case (Some r2)
      note s2 = Some
      show ?thesis
      proof (cases "nonspace_plus r2")
        case None
        with m \<open>lit ''http'' (c # cs) = Some r1\<close> s2 obtain r3
          where a: "lit ''www.'' (c # cs) = Some r3" and b: "nonspace_plus r3 = Some r"
          by (auto simp: url_match_def split: option.splits)
        from lit_len [OF a] ns_len [OF b] show ?thesis by simp
      next
        case (Some r3)
        with m \<open>lit ''http'' (c # cs) = Some r1\<close> s2 have "r3 = r"
          by (simp add: url_match_def)
        with lit_len [OF \<open>lit ''http'' (c # cs) = Some r1\<close>] lit_len [OF s2]
          opt_len [of "CHR ''s''" r1] ns_len [OF Some]
        show ?thesis by simp
      qed
    qed
  qed
  then show "((tok, r), (tok, c # cs)) \<in> measure (\<lambda>(tok, s). length s)" by simp
qed auto

definition replace_urls_fn :: "string \<Rightarrow> string" where
  "replace_urls_fn text = url_sub '' URL '' text"

subsection \<open>\<open>_replace_numbers\<close>\<close>

text \<open>
  \<open>\b\<close>: a word boundary lies between two characters of which exactly one is a word
  character; the start and the end of the text count as characters that are not.
\<close>

definition at_boundary :: "char option \<Rightarrow> string \<Rightarrow> bool" where
  "at_boundary prev s =
     ((case prev of None \<Rightarrow> False | Some p \<Rightarrow> is_word p)
        \<noteq> (case s of [] \<Rightarrow> False | c # _ \<Rightarrow> is_word c))"

text \<open>
  The pattern \<open>\b\d+(?:[.,]\d+)?\b\<close> at the head of the text, after the character
  \<open>prev\<close>: the matched text and the text after it.

  \<open>\d+\<close> is greedy and takes the whole run of digits; a shorter run is followed by a
  digit, where neither the group nor \<open>\b\<close> can match. The group is tried first, its
  \<open>\d+\<close> again taking the whole run of digits for the same reason; when the boundary
  after the group fails, the matcher backtracks to the match without the group.
\<close>

definition num_match :: "char option \<Rightarrow> string \<Rightarrow> (string \<times> string) option" where
  "num_match prev s =
     (if \<not> at_boundary prev s then None
      else let ds = takeWhile is_digit s; r = dropWhile is_digit s
           in if ds = [] then None
              else let without = (if at_boundary (Some (last ds)) r then Some (ds, r) else None)
                   in (case r of
                         [] \<Rightarrow> without
                       | x # r' \<Rightarrow>
                           let es = takeWhile is_digit r'; r'' = dropWhile is_digit r'
                           in if (x = CHR ''.'' \<or> x = CHR '','') \<and> es \<noteq> []
                                 \<and> at_boundary (Some (last es)) r''
                              then Some (ds @ x # es, r'')
                              else without))"

text \<open>
  \<open>re.sub(pattern, ' NUMBER ', text)\<close>, scanning as for the URLs; \<open>prev\<close> is the
  character before the current position, which \<open>\b\<close> looks at.
\<close>

function num_sub :: "string \<Rightarrow> char option \<Rightarrow> string \<Rightarrow> string" where
  "num_sub tok prev [] = []"
| "num_sub tok prev (c # cs) =
     (case num_match prev (c # cs) of
        Some (m, r) \<Rightarrow> tok @ num_sub tok (Some (last m)) r
      | None \<Rightarrow> c # num_sub tok (Some c) cs)"
  by pat_completeness auto
termination
proof (relation "measure (\<lambda>(tok, prev, s). length s)")
  fix tok :: string and prev c cs x m r
  assume "num_match prev (c # cs) = Some x" and "(m, r) = x"
  then have m: "num_match prev (c # cs) = Some (m, r)" by simp
  have d: "length (dropWhile is_digit t) \<le> length t" for t
    by (rule length_dropWhile_le)
  have t: "takeWhile is_digit t \<noteq> [] \<Longrightarrow> length (dropWhile is_digit t) < length t" for t
    by (cases t) (auto simp: less_Suc_eq_le length_dropWhile_le split: if_splits)
  from m have ne: "takeWhile is_digit (c # cs) \<noteq> []"
    by (auto simp: num_match_def Let_def split: if_splits)
  from m have "r = dropWhile is_digit (c # cs)
      \<or> (\<exists>x r'. dropWhile is_digit (c # cs) = x # r' \<and> r = dropWhile is_digit r')"
    by (auto simp: num_match_def Let_def split: if_splits list.splits)
  then have "length r < length (c # cs)"
  proof
    assume "r = dropWhile is_digit (c # cs)"
    with t [OF ne] show ?thesis by simp
  next
    assume "\<exists>x r'. dropWhile is_digit (c # cs) = x # r' \<and> r = dropWhile is_digit r'"
    then obtain x r' where a: "dropWhile is_digit (c # cs) = x # r'"
      and b: "r = dropWhile is_digit r'" by blast
    from d [of r'] b have "length r \<le> length r'" by simp
    moreover from a t [OF ne] have "length r' < length (c # cs)" by simp
    ultimately show ?thesis by simp
  qed
  then show "((tok, Some (last m), r), (tok, prev, c # cs))
      \<in> measure (\<lambda>(tok, prev, s). length s)" by simp
qed auto

definition replace_numbers_fn :: "string \<Rightarrow> string" where
  "replace_numbers_fn text = num_sub '' NUMBER '' None text"

subsection \<open>\<open>_remove_punct\<close>\<close>

text \<open>\<open>re.sub(r'[^\w\s]', ' ', text)\<close>.\<close>

definition remove_punct :: "string \<Rightarrow> string" where
  "remove_punct text = map (\<lambda>c. if \<not> is_word c \<and> \<not> is_space c then CHR '' '' else c) text"

subsection \<open>\<open>_stem\<close>\<close>

text \<open>
  The stemmer is NLTK's \<open>SnowballStemmer("english")\<close>, a library outside the
  repository: it is a parameter of the model.
\<close>

definition stem :: "(string \<Rightarrow> string) \<Rightarrow> string \<Rightarrow> string" where
  "stem stemmer text = str_join (map stemmer (str_split text))"

subsection \<open>\<open>transform\<close>\<close>

text \<open>\<open>re.sub(r'\s+', ' ', text)\<close>: every maximal run of whitespace becomes one space.\<close>

function ws_sub :: "string \<Rightarrow> string" where
  "ws_sub [] = []"
| "ws_sub (c # cs) =
     (if is_space c then CHR '' '' # ws_sub (dropWhile is_space cs) else c # ws_sub cs)"
  by pat_completeness auto
termination
  by (relation "measure length") (auto simp: less_Suc_eq_le length_dropWhile_le)

definition collapse_ws :: "string \<Rightarrow> string" where
  "collapse_ws text = str_strip (ws_sub text)"

text \<open>The body of the loop of \<open>transform\<close>, for one text.\<close>

definition transform_text :: "(string \<Rightarrow> string) \<Rightarrow> EmailPreprocessor \<Rightarrow> string \<Rightarrow> string" where
  "transform_text stemmer self text0 =
     (let text1 = (if strip_headers self then strip_headers_fn text0 else text0);
          text2 = (if lowercase self then str_lower text1 else text1);
          text3 = (if replace_urls self then replace_urls_fn text2 else text2);
          text4 = (if replace_numbers self then replace_numbers_fn text3 else text3);
          text5 = (if remove_punctuation self then remove_punct text4 else text4);
          text6 = (if do_stemming self then stem stemmer text5 else text5)
      in collapse_ws text6)"

text \<open>
  \<open>np.array(out)\<close>: the list of texts becomes an array of numpy's fixed-width
  string type, whose items are padded to the width with NUL characters, and an item
  read from the array comes without its trailing NUL characters. A text that ends with
  NUL characters therefore loses them.
\<close>

definition np_str :: "string \<Rightarrow> string" where
  "np_str s = rev (dropWhile (\<lambda>c. c = CHR 0x00) (rev s))"

definition np_array :: "string list \<Rightarrow> string list" where
  "np_array out = map np_str out"

text \<open>\<open>transform(X)\<close>: the loop over the texts of \<open>X\<close>, then \<open>return np.array(out)\<close>.\<close>

definition transform :: "(string \<Rightarrow> string) \<Rightarrow> EmailPreprocessor \<Rightarrow> string list \<Rightarrow> string list" where
  "transform stemmer self X = np_array (map (transform_text stemmer self) X)"

section \<open>\<open>model.py\<close>\<close>

text \<open>An exception raised by a call; the handlers of \<open>model.py\<close> catch every one alike.\<close>

datatype py_error = Exception

text \<open>
  The trained pipeline that \<open>joblib.load\<close> returns is opaque: the model knows it by
  what its two methods return for a text, \<open>model.predict([text])[0]\<close> and
  \<open>model.predict_proba([text])[0]\<close>, or that the call raises. A Python float is a
  \<open>real\<close> here: the code compares probabilities and returns them, it computes nothing
  with them, and NaN is left out.
\<close>

record Artifact =
  predict :: "string \<Rightarrow> py_error + int"
  predict_proba :: "string \<Rightarrow> py_error + real list"

text \<open>The module globals \<open>_model\<close> and \<open>_model_loaded\<close>.\<close>

record ModelState =
  model_var :: "Artifact option"
  model_loaded :: bool

definition initial_state :: ModelState where
  "initial_state = \<lparr> model_var = None, model_loaded = False \<rparr>"

text \<open>
  What a load attempt meets: \<open>os.path.exists(MODEL_PATH)\<close> is false; \<open>joblib.load\<close>
  raises; \<open>joblib.load\<close> returns the pipeline and the rest of the \<open>try\<close> block
  runs to its \<open>return\<close>; or \<open>joblib.load\<close> returns an object and a later statement
  of the \<open>try\<close> block raises (the comprehension \<open>[name for name, _ in _model.steps]\<close>,
  when \<open>steps\<close> is not a sequence of pairs). In the last case \<open>_model\<close> and
  \<open>_model_loaded\<close> have been assigned before the exception, and the handler sets the
  flag and returns \<open>None\<close> without resetting \<open>_model\<close>.
\<close>

datatype load_env =
    FileMissing
  | LoadRaises
  | LoadReturns Artifact
  | LoadReturnsThenRaises Artifact

definition load_model :: "load_env \<Rightarrow> ModelState \<Rightarrow> Artifact option \<times> ModelState" where
  "load_model env s =
     (if model_loaded s then (model_var s, s)
      else (case env of
              FileMissing \<Rightarrow> (None, s\<lparr>model_loaded := True\<rparr>)
            | LoadReturns m \<Rightarrow> (Some m, s\<lparr>model_var := Some m, model_loaded := True\<rparr>)
            | LoadRaises \<Rightarrow> (None, s\<lparr>model_loaded := True\<rparr>)
            | LoadReturnsThenRaises m \<Rightarrow> (None, s\<lparr>model_var := Some m, model_loaded := True\<rparr>)))"

definition scam_keywords :: "string list" where
  "scam_keywords =
     [''urgent'', ''verify'', ''suspended'', ''click here'', ''prize'',
      ''winner'', ''congratulations'', ''bank account'', ''password'',
      ''confirm identity'', ''act now'', ''limited time'', ''free money'',
      ''nigerian prince'', ''inheritance'', ''tax refund'', ''claim now'',
      ''account locked'', ''unusual activity'', ''expires today'',
      ''verify your account'', ''confirm your identity'', ''update payment'']"

text \<open>\<open>keyword in text_lower\<close>: the keyword occurs in the text as a substring.\<close>

fun py_in :: "string \<Rightarrow> string \<Rightarrow> bool" where
  "py_in k [] = (k = [])"
| "py_in k (c # cs) = (prefix k (c # cs) \<or> py_in k cs)"

text \<open>\<open>sum(1 for keyword in scam_keywords if keyword in text_lower)\<close>.\<close>

definition scam_score :: "string \<Rightarrow> nat" where
  "scam_score text_lower = length (filter (\<lambda>keyword. py_in keyword text_lower) scam_keywords)"

definition fallback_classification :: "string \<Rightarrow> string" where
  "fallback_classification text =
     (let text_lower = str_lower text
      in if scam_score text_lower \<ge> 3 then ''Spam'' else ''Not Spam'')"

definition classify_email :: "load_env \<Rightarrow> string \<Rightarrow> ModelState \<Rightarrow> string \<times> ModelState" where
  "classify_email env text s =
     (case load_model env s of
        (Some m, s') \<Rightarrow>
          (case predict m text of
             Inr prediction \<Rightarrow> (if prediction = 1 then ''Spam'' else ''Not Spam'', s')
           | Inl e \<Rightarrow> (fallback_classification text, s'))
      | (None, s') \<Rightarrow> (fallback_classification text, s'))"

text \<open>
  \<open>numpy.ndarray.argmax\<close>: the index of the first occurrence of the maximum; it
  raises on an empty array.
\<close>

fun argmax_from :: "nat \<Rightarrow> real \<Rightarrow> nat \<Rightarrow> real list \<Rightarrow> nat" where
  "argmax_from best bv i [] = best"
| "argmax_from best bv i (x # xs) =
     (if x > bv then argmax_from i x (Suc i) xs else argmax_from best bv (Suc i) xs)"

definition argmax :: "real list \<Rightarrow> py_error + nat" where
  "argmax xs = (case xs of [] \<Rightarrow> Inl Exception | x # xs' \<Rightarrow> Inr (argmax_from 0 x 1 xs'))"

text \<open>
  \<open>get_prediction_confidence\<close> loads the model itself and, on its two fallback paths,
  calls \<open>classify_email\<close>, which loads it again: \<open>env1\<close> and \<open>env2\<close> are what the two
  attempts meet.
\<close>

definition get_prediction_confidence ::
    "load_env \<Rightarrow> load_env \<Rightarrow> string \<Rightarrow> ModelState \<Rightarrow> (string \<times> real) \<times> ModelState" where
  "get_prediction_confidence env1 env2 text s =
     (case load_model env1 s of
        (Some m, s') \<Rightarrow>
          (case (case predict_proba m text of
                   Inl e \<Rightarrow> Inl e
                 | Inr proba \<Rightarrow>
                     (case argmax proba of
                        Inl e \<Rightarrow> Inl e
                      | Inr prediction_idx \<Rightarrow>
                          Inr (if prediction_idx = 1 then ''Spam'' else ''Not Spam'',
                               proba ! prediction_idx))) of
             Inr result \<Rightarrow> (result, s')
           | Inl e \<Rightarrow> (case classify_email env2 text s' of
                         (prediction, s'') \<Rightarrow> ((prediction, 0.85), s'')))
      | (None, s') \<Rightarrow> (case classify_email env2 text s' of
                        (prediction, s'') \<Rightarrow> ((prediction, 0.85), s'')))"

text \<open>The calls a process makes on the module, for runs of several requests.\<close>

datatype call =
    LoadModel load_env
  | ClassifyEmail load_env string
  | GetPredictionConfidence load_env load_env string

fun state_after :: "call \<Rightarrow> ModelState \<Rightarrow> ModelState" where
  "state_after (LoadModel env) s = snd (load_model env s)"
| "state_after (ClassifyEmail env text) s = snd (classify_email env text s)"
| "state_after (GetPredictionConfidence env1 env2 text) s =
     snd (get_prediction_confidence env1 env2 text s)"

fun run_calls :: "call list \<Rightarrow> ModelState \<Rightarrow> ModelState" where
  "run_calls [] s = s"
| "run_calls (c # cs) s = run_calls cs (state_after c s)"

section \<open>\<open>app.py\<close>: the route \<open>/predict\<close>\<close>








section \<open>Notions used in the statements about header stripping\<close>

text \<open>
  The four texts that the pattern \<open>\r?\n\r?\n\<close> matches: two line terminators in a
  row, each \<open>\n\<close> or \<open>\r\n\<close>, that is, an empty line after the end of a line.
\<close>

definition blank_seps :: "string list" where
  "blank_seps = [[CHR 0x0A, CHR 0x0A], [CHR 0x0D, CHR 0x0A, CHR 0x0A],
                 [CHR 0x0A, CHR 0x0D, CHR 0x0A], [CHR 0x0D, CHR 0x0A, CHR 0x0D, CHR 0x0A]]"

text \<open>
  Header stripping as the specification words it, for comparison with the code: the
  text is read line by line (a line ends at \<open>\n\<close>; a \<open>\r\<close> before it is whitespace);
  the first line that contains only whitespace is the blank line, and the text after it
  is kept. \<open>b\<close> says that the current line has held only whitespace so far.
\<close>

fun blank_line_scan :: "bool \<Rightarrow> string \<Rightarrow> string option" where
  "blank_line_scan b [] = None"
| "blank_line_scan b (c # cs) =
     (if c = CHR 0x0A then (if b then Some cs else blank_line_scan True cs)
      else blank_line_scan (b \<and> is_space c) cs)"

definition spec_strip_headers :: "string \<Rightarrow> string" where
  "spec_strip_headers text =
     (case blank_line_scan True text of Some r \<Rightarrow> r | None \<Rightarrow> text)"

section \<open>Notions used in the proofs about applying the normalizer twice\<close>

text \<open>The literal starts of the two alternatives of the URL pattern.\<close>

definition url_starts :: "string list" where
  "url_starts = [''http://'', ''https://'', ''www.'']"

text \<open>No position of the text starts a match of the URL pattern.\<close>

fun url_free :: "string \<Rightarrow> bool" where
  "url_free [] = True"
| "url_free (c # cs) = (url_match (c # cs) = None \<and> url_free cs)"

text \<open>
  No position of the text, read after the character \<open>prev\<close>, starts a match of the
  number pattern.
\<close>

fun num_free :: "char option \<Rightarrow> string \<Rightarrow> bool" where
  "num_free prev [] = True"
| "num_free prev (c # cs) = (num_match prev (c # cs) = None \<and> num_free (Some c) cs)"

text \<open>The character before a position is a word character.\<close>

definition word_opt :: "char option \<Rightarrow> bool" where
  "word_opt p = (case p of None \<Rightarrow> False | Some c \<Rightarrow> is_word c)"

text \<open>The characters of a text up to its first whitespace.\<close>

definition first_token :: "string \<Rightarrow> string" where
  "first_token t = takeWhile (\<lambda>c. \<not> is_space c) t"

text \<open>
  The text starts with a run of digits that no word character follows.
\<close>

definition number_head :: "string \<Rightarrow> bool" where
  "number_head t = (takeWhile is_digit t \<noteq> []
      \<and> (case dropWhile is_digit t of [] \<Rightarrow> True | x # _ \<Rightarrow> \<not> is_word x))"

text \<open>
  Every whitespace character of the text is a single space that no whitespace follows.
\<close>

fun ws_norm :: "string \<Rightarrow> bool" where
  "ws_norm [] = True"
| "ws_norm (c # cs) =
     ((is_space c \<longrightarrow> c = CHR '' '' \<and> (cs = [] \<or> \<not> is_space (hd cs))) \<and> ws_norm cs)"

text \<open>The text ends with a word character.\<close>

definition prev_word :: "string \<Rightarrow> bool" where
  "prev_word u = (u \<noteq> [] \<and> is_word (last u))"

text \<open>
  A character that lowercasing keeps, or a letter of the tokens \<open>URL\<close> and \<open>NUMBER\<close>.
\<close>

definition char_ok :: "char \<Rightarrow> bool" where
  "char_ok c = (lower_char c = c \<or> c \<in> set ''URLNMBE'')"

section \<open>The conditions of the specification for status 400\<close>


section \<open>Examples\<close>

text \<open>
  A pipeline whose two class probabilities are equal, one without probabilities, and
  one whose two methods raise.
\<close>

definition tie_artifact :: Artifact where
  "tie_artifact = \<lparr> predict = (\<lambda>text. Inr 0), predict_proba = (\<lambda>text. Inr [0.5, 0.5]) \<rparr>"

definition plain_artifact :: Artifact where
  "plain_artifact = \<lparr> predict = (\<lambda>text. Inr 1), predict_proba = (\<lambda>text. Inl Exception) \<rparr>"

definition faulty_artifact :: Artifact where
  "faulty_artifact =
     \<lparr> predict = (\<lambda>text. Inl Exception), predict_proba = (\<lambda>text. Inl Exception) \<rparr>"

text \<open>The normalizer with every step switched off, and the default one with stemming.\<close>

definition bare_preprocessor :: EmailPreprocessor where
  "bare_preprocessor =
     \<lparr> strip_headers = False, lowercase = False, replace_urls = False,
       replace_numbers = False, remove_punctuation = False, do_stemming = False \<rparr>"

definition stemming_preprocessor :: EmailPreprocessor where
  "stemming_preprocessor = default_preprocessor\<lparr>do_stemming := True\<rparr>"

text \<open>
  A stemmer for an example with stemming. It maps \<open>agreed\<close> to \<open>agre\<close> and \<open>agre\<close>
  to \<open>agr\<close>, which is what the rules of the English Snowball algorithm give for these
  two words (step 1b turns \<open>eed\<close> in the region R1 into \<open>ee\<close>; step 5 deletes a final
  \<open>e\<close> in R1 that no short syllable precedes), and it keeps every other word.
\<close>

definition example_stemmer :: "string \<Rightarrow> string" where
  "example_stemmer w =
     (if w = ''agreed'' then ''agre'' else if w = ''agre'' then ''agr'' else w)"

section \<open>Properties of the text normalizer\<close>

lemma default_pipeline:
  "transform_text stemmer default_preprocessor x =
     collapse_ws (remove_punct (replace_numbers_fn (replace_urls_fn
       (str_lower (strip_headers_fn x)))))"
  by (simp add: transform_text_def default_preprocessor_def)

lemma py_in_sublist: "py_in k s = sublist k s"
  by (induction s) (auto simp: sublist_Cons_right)

subsection \<open>Header stripping\<close>

lemma lit_lf: "lit [CHR 0x0A] s = Some r \<longleftrightarrow> s = CHR 0x0A # r"
  by (cases s) auto

lemma opt_cr_lf: "opt_char (CHR 0x0D) s = CHR 0x0A # r \<longleftrightarrow> (s = CHR 0x0A # r \<or> s = CHR 0x0D # CHR 0x0A # r)"
  by (cases s) auto

lemma match_blank_iff:
  "match_blank s = Some r \<longleftrightarrow> (\<exists>sep \<in> set blank_seps. s = sep @ r)"
proof -
  have "match_blank s = Some r \<longleftrightarrow>
      (\<exists>r1. opt_char (CHR 0x0D) s = CHR 0x0A # r1 \<and> opt_char (CHR 0x0D) r1 = CHR 0x0A # r)"
    by (auto simp: match_blank_def lit_lf split: option.splits)
  also have "\<dots> \<longleftrightarrow> (\<exists>sep \<in> set blank_seps. s = sep @ r)"
    unfolding opt_cr_lf by (auto simp: blank_seps_def)
  finally show ?thesis .
qed

lemma re_split1_none:
  "\<forall>sep \<in> set blank_seps. \<not> sublist sep s \<Longrightarrow> re_split1 s = [s]"
proof (induction s)
  case Nil
  show ?case by simp
next
  case (Cons c cs)
  have "match_blank (c # cs) = None"
  proof (cases "match_blank (c # cs)")
    case (Some r)
    then obtain sep where "sep \<in> set blank_seps" "c # cs = sep @ r"
      unfolding match_blank_iff by blast
    then have "sublist sep (c # cs)" by (metis sublist_appendI append_Nil)
    with Cons.prems \<open>sep \<in> set blank_seps\<close> show ?thesis by blast
  qed simp
  moreover have "re_split1 cs = [cs]"
    using Cons by (auto simp: sublist_Cons_right)
  ultimately show ?case by simp
qed

lemma blank_sep_overlap:
  assumes "sep \<in> set blank_seps" "sep' \<in> set blank_seps"
    and "(c # pre) @ sep @ post = sep' @ r"
    and "\<not> sublist sep' ((c # pre) @ butlast sep)"
  shows "r = post"
proof -
  have "\<not> prefix sep' ((c # pre) @ butlast sep)"
    using assms(4) by (meson prefix_imp_sublist)
  with assms(1-3) show ?thesis
    apply (simp add: blank_seps_def)
    apply (elim disjE)
    apply (auto simp: Cons_eq_append_conv append_eq_Cons_conv)
    done
qed

lemma re_split1_first:
  assumes "sep \<in> set blank_seps"
    and "\<forall>sep' \<in> set blank_seps. \<not> sublist sep' (pre @ butlast sep)"
  shows "\<exists>p. re_split1 (pre @ sep @ post) = [p, post]"
  using assms(2)
proof (induction pre)
  case Nil
  from assms(1) have "match_blank (sep @ post) = Some post"
    unfolding match_blank_iff by blast
  moreover from assms(1) obtain c cs where "sep @ post = c # cs"
    by (cases "sep @ post") (auto simp: blank_seps_def)
  ultimately show ?case by simp
next
  case (Cons c pre)
  show ?case
  proof (cases "match_blank ((c # pre) @ sep @ post)")
    case None
    from Cons.prems have "\<forall>sep' \<in> set blank_seps. \<not> sublist sep' (pre @ butlast sep)"
      by (auto simp: sublist_Cons_right)
    from Cons.IH [OF this] obtain p where "re_split1 (pre @ sep @ post) = [p, post]" ..
    with None show ?thesis by simp
  next
    case (Some r)
    then obtain sep' where s: "sep' \<in> set blank_seps" "(c # pre) @ sep @ post = sep' @ r"
      unfolding match_blank_iff by blast
    with Cons.prems have "\<not> sublist sep' ((c # pre) @ butlast sep)" by blast
    from blank_sep_overlap [OF assms(1) s this] have "r = post" .
    with Some show ?thesis by simp
  qed
qed


lemma whitespace_line_example:
  "strip_headers_fn (''From: a'' @ [CHR 0x0A, CHR '' '', CHR 0x0A] @ ''Body text'')
     = ''From: a'' @ [CHR 0x0A, CHR '' '', CHR 0x0A] @ ''Body text''"
  "spec_strip_headers (''From: a'' @ [CHR 0x0A, CHR '' '', CHR 0x0A] @ ''Body text'')
     = ''Body text''"
  by code_simp+

text \<open>
  Claim C3, as stated: the text is split at the first line that contains only
  whitespace. It fails: the pattern matches two line terminators with nothing between
  them, so a line that holds a space is not a split point and the text stays whole,
  where the specification's reading keeps the body only.
\<close>

theorem strip_headers_whitespace_line_counterexample:
  "\<not> (strip_headers_fn (''From: a'' @ [CHR 0x0A, CHR '' '', CHR 0x0A] @ ''Body text'')
        = spec_strip_headers (''From: a'' @ [CHR 0x0A, CHR '' '', CHR 0x0A] @ ''Body text''))"
  unfolding whitespace_line_example by simp

text \<open>
  Claim C3, amended: the split point is the first occurrence of two line terminators in
  a row (each \<open>\n\<close> or \<open>\r\n\<close>), that is, of an empty line. A text in which none
  occurs is unchanged; of a text \<open>pre @ sep @ post\<close>, where \<open>sep\<close> is such a pair and
  none occurs before the end of \<open>sep\<close>, only \<open>post\<close> is kept, whatever \<open>post\<close> holds.
\<close>

theorem strip_headers_first_empty_line:
  "((\<forall>sep \<in> set blank_seps. \<not> sublist sep text) \<longrightarrow> strip_headers_fn text = text)
   \<and> (sep \<in> set blank_seps \<and> (\<forall>sep' \<in> set blank_seps. \<not> sublist sep' (pre @ butlast sep))
        \<longrightarrow> strip_headers_fn (pre @ sep @ post) = post)"
proof (intro conjI impI)
  assume "\<forall>sep \<in> set blank_seps. \<not> sublist sep text"
  then have "re_split1 text = [text]" by (rule re_split1_none)
  then show "strip_headers_fn text = text" by (simp add: strip_headers_fn_def)
next
  assume "sep \<in> set blank_seps \<and> (\<forall>sep' \<in> set blank_seps. \<not> sublist sep' (pre @ butlast sep))"
  then obtain p where "re_split1 (pre @ sep @ post) = [p, post]"
    using re_split1_first by blast
  then show "strip_headers_fn (pre @ sep @ post) = post" by (simp add: strip_headers_fn_def)
qed

theorem strip_headers_first_empty_line_witness:
  "strip_headers_fn (''Subject: hi'' @ [CHR 0x0A] @ ''Body text'')
       = ''Subject: hi'' @ [CHR 0x0A] @ ''Body text''
   \<and> [CHR 0x0D, CHR 0x0A, CHR 0x0D, CHR 0x0A] \<in> set blank_seps
   \<and> strip_headers_fn (''From: a'' @ [CHR 0x0D, CHR 0x0A, CHR 0x0D, CHR 0x0A]
                          @ ''Body'' @ [CHR 0x0A, CHR 0x0A] @ ''text'')
       = ''Body'' @ [CHR 0x0A, CHR 0x0A] @ ''text''"
proof -
  have "\<forall>sep \<in> set blank_seps. \<not> py_in sep (''Subject: hi'' @ [CHR 0x0A] @ ''Body text'')"
    by code_simp
  then have h1: "\<forall>sep \<in> set blank_seps.
      \<not> sublist sep (''Subject: hi'' @ [CHR 0x0A] @ ''Body text'')"
    unfolding py_in_sublist .
  have h2: "[CHR 0x0D, CHR 0x0A, CHR 0x0D, CHR 0x0A] \<in> set blank_seps"
    by (simp add: blank_seps_def)
  have "\<forall>sep' \<in> set blank_seps.
         \<not> py_in sep' (''From: a'' @ butlast [CHR 0x0D, CHR 0x0A, CHR 0x0D, CHR 0x0A])"
    by code_simp
  then have h3: "\<forall>sep' \<in> set blank_seps.
         \<not> sublist sep' (''From: a'' @ butlast [CHR 0x0D, CHR 0x0A, CHR 0x0D, CHR 0x0A])"
    unfolding py_in_sublist .
  from strip_headers_first_empty_line
    [of "''Subject: hi'' @ [CHR 0x0A] @ ''Body text''" "[CHR 0x0D, CHR 0x0A, CHR 0x0D, CHR 0x0A]"
        "''From: a''" "''Body'' @ [CHR 0x0A, CHR 0x0A] @ ''text''"]
    h1 h2 h3
  show ?thesis by blast
qed

subsection \<open>Applying the normalizer twice\<close>

text \<open>
  The second application starts from a text that the first one has normalized. The
  lemmas below show that such a text holds no match of the URL pattern and none of the
  number pattern, no punctuation and no whitespace left to collapse, so that every
  step but the lowercasing returns it as it is.
\<close>

subsubsection \<open>Character classes under lowercasing\<close>

lemma of_char_lower: "(of_char (lower_char c) :: nat) =
   (let n = (of_char c :: nat)
    in if (65 \<le> n \<and> n \<le> 90) \<or> (192 \<le> n \<and> n \<le> 214) \<or> (216 \<le> n \<and> n \<le> 222)
       then n + 32 else n)"
proof -
  have "(of_char c :: nat) < 256" by (rule nat_of_char_less_256)
  then show ?thesis by (auto simp: lower_char_def Let_def)
qed

lemma is_space_lower [simp]: "is_space (lower_char c) = is_space c"
  by (auto simp: is_space_def of_char_lower Let_def)

lemma is_digit_lower [simp]: "is_digit (lower_char c) = is_digit c"
  by (auto simp: is_digit_def of_char_lower Let_def)

lemma is_word_lower [simp]: "is_word (lower_char c) = is_word c"
  using nat_of_char_less_256 [of c]
  by (simp add: is_word_def of_char_lower Let_def)

lemma lower_lower [simp]: "lower_char (lower_char c) = lower_char c"
  unfolding lower_char_def [of "lower_char c"] of_char_lower by (auto simp: Let_def)

lemma digit_word: "is_digit c \<Longrightarrow> is_word c"
  by (auto simp: is_digit_def is_word_def Let_def)

lemma word_not_space: "is_word c \<Longrightarrow> \<not> is_space c"
  by (auto simp: is_space_def is_word_def Let_def)

lemma space_facts [simp]: "is_space (CHR '' '')" "\<not> is_word (CHR '' '')" "\<not> is_digit (CHR '' '')"
  "\<not> is_word (CHR ''.'')" "\<not> is_word (CHR '','')" "is_space (CHR 0x0A)"
  by (simp_all add: is_space_def is_word_def is_digit_def)

subsubsection \<open>What the two patterns match\<close>

lemma lit_iff: "lit p s = Some r \<longleftrightarrow> s = p @ r"
  by (induction p s rule: lit.induct) auto

lemma nonspace_plus_iff:
  "nonspace_plus s \<noteq> None \<longleftrightarrow> (\<exists>x rest. s = x # rest \<and> \<not> is_space x)"
  by (cases s) (auto simp: nonspace_plus_def)

lemma url_match_iff:
  "url_match s \<noteq> None \<longleftrightarrow>
     (\<exists>p \<in> set url_starts. \<exists>x rest. s = p @ x # rest \<and> \<not> is_space x)"
proof -
  have h: "(case lit ''http'' s of None \<Rightarrow> None
            | Some r \<Rightarrow> (case lit ''://'' (opt_char CHR ''s'' r) of
                          None \<Rightarrow> None | Some r' \<Rightarrow> nonspace_plus r')) \<noteq> None
      \<longleftrightarrow> (\<exists>x rest. \<not> is_space x \<and> (s = ''http://'' @ x # rest \<or> s = ''https://'' @ x # rest))"
    (is "?l \<longleftrightarrow> ?r")
  proof
    assume ?l
    then obtain r r' where a: "lit ''http'' s = Some r"
      and b: "lit ''://'' (opt_char CHR ''s'' r) = Some r'" and c: "nonspace_plus r' \<noteq> None"
      by (auto split: option.splits)
    from c obtain x rest where r': "r' = x # rest" "\<not> is_space x"
      unfolding nonspace_plus_iff by blast
    from b have "opt_char CHR ''s'' r = ''://'' @ r'" unfolding lit_iff .
    then have "r = ''://'' @ r' \<or> r = ''s://'' @ r'"
      by (cases r) (auto split: if_splits)
    with a r' show ?r unfolding lit_iff by auto
  next
    assume ?r
    then show ?l by (auto simp: nonspace_plus_def)
  qed
  have w: "(case lit ''www.'' s of None \<Rightarrow> None | Some r \<Rightarrow> nonspace_plus r) \<noteq> None
      \<longleftrightarrow> (\<exists>x rest. \<not> is_space x \<and> s = ''www.'' @ x # rest)"
  proof (cases "lit ''www.'' s")
    case None
    have "\<not> (\<exists>x rest. \<not> is_space x \<and> s = ''www.'' @ x # rest)"
    proof
      assume "\<exists>x rest. \<not> is_space x \<and> s = ''www.'' @ x # rest"
      then obtain x rest where "s = ''www.'' @ (x # rest)" by blast
      then have "lit ''www.'' s = Some (x # rest)" unfolding lit_iff .
      with None show False by simp
    qed
    with None show ?thesis by simp
  next
    case (Some a)
    then have "s = ''www.'' @ a" unfolding lit_iff .
    with Some show ?thesis by (cases a) (auto simp: nonspace_plus_def)
  qed
  have "url_match s \<noteq> None \<longleftrightarrow>
      (case lit ''http'' s of None \<Rightarrow> None
            | Some r \<Rightarrow> (case lit ''://'' (opt_char CHR ''s'' r) of
                          None \<Rightarrow> None | Some r' \<Rightarrow> nonspace_plus r')) \<noteq> None
      \<or> (case lit ''www.'' s of None \<Rightarrow> None | Some r \<Rightarrow> nonspace_plus r) \<noteq> None"
    unfolding url_match_def by (auto split: option.splits)
  then show ?thesis unfolding h w by (auto simp: url_starts_def)
qed

lemma url_match_suffix: "url_match s = Some r \<Longrightarrow> suffix r s"
proof -
  have d: "suffix (dropWhile P t) t" for P and t :: string
    by (metis suffixI takeWhile_dropWhile_id)
  have n: "nonspace_plus t = Some r \<Longrightarrow> suffix r t" for t
    by (auto simp: nonspace_plus_def d split: if_splits)
  have l: "lit p t = Some u \<Longrightarrow> suffix u t" for p t u
    unfolding lit_iff by (auto simp: suffix_def)
  have o: "suffix (opt_char x t) t" for x t
    by (cases t) (auto simp: suffix_Cons)
  assume m: "url_match s = Some r"
  show ?thesis
  proof (cases "case lit ''http'' s of None \<Rightarrow> None
            | Some r \<Rightarrow> (case lit ''://'' (opt_char CHR ''s'' r) of
                          None \<Rightarrow> None | Some r' \<Rightarrow> nonspace_plus r')")
    case None
    with m obtain r1 where "lit ''www.'' s = Some r1" "nonspace_plus r1 = Some r"
      by (auto simp: url_match_def split: option.splits)
    then have "suffix r1 s" "suffix r r1" using l n by blast+
    then show ?thesis by (meson suffix_order.order_trans)
  next
    case (Some r0)
    with m have "r0 = r" by (simp add: url_match_def)
    with Some obtain r1 r2 where "lit ''http'' s = Some r1"
      "lit ''://'' (opt_char CHR ''s'' r1) = Some r2" "nonspace_plus r2 = Some r"
      by (auto split: option.splits)
    then have "suffix r1 s" "suffix r2 (opt_char CHR ''s'' r1)" "suffix r r2"
      using l n by blast+
    with o [of "CHR ''s''" r1] show ?thesis by (meson suffix_order.order_trans)
  qed
qed

lemma takeWhile_digit_last:
  "takeWhile is_digit s \<noteq> [] \<Longrightarrow> is_digit (last (takeWhile is_digit s))"
  by (metis last_in_set set_takeWhileD)

lemma num_match_iff:
  "num_match p s \<noteq> None \<longleftrightarrow> \<not> word_opt p \<and> number_head s"
proof (cases "takeWhile is_digit s = []")
  case True
  then show ?thesis by (simp add: num_match_def number_head_def Let_def)
next
  case False
  then obtain c cs where s: "s = c # cs" and c: "is_digit c"
    by (cases s) (auto split: if_splits)
  have b1: "at_boundary p s \<longleftrightarrow> \<not> word_opt p"
    using c by (auto simp: at_boundary_def word_opt_def s digit_word split: option.splits)
  have lw: "is_word (last (takeWhile is_digit s))"
    using False by (intro digit_word takeWhile_digit_last)
  have b2: "at_boundary (Some (last (takeWhile is_digit s))) r
      \<longleftrightarrow> (case r of [] \<Rightarrow> True | x # _ \<Rightarrow> \<not> is_word x)" for r
    using lw by (auto simp: at_boundary_def split: list.splits)
  show ?thesis
    using False
    by (auto simp: num_match_def number_head_def Let_def b1 b2 split: list.splits)
qed

lemma num_match_Some:
  assumes "num_match p s = Some (m, r)"
  shows "s = m @ r" and "m \<noteq> []" and "is_digit (last m)"
    and "r = [] \<or> \<not> is_word (hd r)"
proof -
  let ?ds = "takeWhile is_digit s" and ?r = "dropWhile is_digit s"
  from assms have ne: "?ds \<noteq> []"
    by (auto simp: num_match_def Let_def split: if_splits)
  have lw: "is_word (last (takeWhile is_digit t))" if "takeWhile is_digit t \<noteq> []" for t
    using that by (intro digit_word takeWhile_digit_last)
  have bd: "at_boundary (Some (last (takeWhile is_digit t))) r' \<longleftrightarrow> (r' = [] \<or> \<not> is_word (hd r'))"
    if "takeWhile is_digit t \<noteq> []" for t r'
    using lw [OF that] by (auto simp: at_boundary_def split: list.splits)
  from assms consider (plain) "m = ?ds" "r = ?r" "at_boundary (Some (last ?ds)) ?r"
    | (group) x r' where "?r = x # r'" "takeWhile is_digit r' \<noteq> []"
        "m = ?ds @ x # takeWhile is_digit r'" "r = dropWhile is_digit r'"
        "at_boundary (Some (last (takeWhile is_digit r'))) (dropWhile is_digit r')"
    by (auto simp: num_match_def Let_def split: if_splits list.splits)
  then have "s = m @ r \<and> m \<noteq> [] \<and> is_digit (last m) \<and> (r = [] \<or> \<not> is_word (hd r))"
  proof cases
    case plain
    then show ?thesis using ne bd [OF ne] takeWhile_digit_last [OF ne] by auto
  next
    case group
    have "s = ?ds @ ?r" by simp
    also have "?r = x # takeWhile is_digit r' @ dropWhile is_digit r'"
      using group(1) by simp
    finally have "s = m @ r" using group by simp
    then show ?thesis
      using group bd [OF group(2)] takeWhile_digit_last [OF group(2)] by auto
  qed
  then show "s = m @ r" and "m \<noteq> []" and "is_digit (last m)"
    and "r = [] \<or> \<not> is_word (hd r)" by auto
qed

subsubsection \<open>The URL replacement leaves no URL behind\<close>

lemma url_free_fix: "url_free s \<Longrightarrow> url_sub tok s = s"
  by (induction s) auto

lemma num_free_fix: "num_free p s \<Longrightarrow> num_sub tok p s = s"
  by (induction s arbitrary: p) auto

lemma url_free_iff: "url_free s \<longleftrightarrow> (\<forall>t. suffix t s \<longrightarrow> url_match t = None)"
proof (induction s)
  case Nil
  show ?case by (simp add: url_match_def)
next
  case (Cons c cs)
  then show ?case by (auto simp: suffix_Cons)
qed

lemma url_free_suffix: "url_free s \<Longrightarrow> suffix t s \<Longrightarrow> url_free t"
  unfolding url_free_iff by (meson suffix_order.order_trans)

lemma first_token_prefix: "prefix (first_token t) t"
  unfolding first_token_def by (metis prefixI takeWhile_dropWhile_id)

lemma spacefree_prefix_first_token:
  "\<forall>c \<in> set q. \<not> is_space c \<Longrightarrow> prefix q t \<Longrightarrow> prefix q (first_token t)"
  unfolding first_token_def by (auto simp: prefix_def takeWhile_append2)

lemma url_window:
  "url_match t \<noteq> None \<longleftrightarrow>
     (\<exists>p \<in> set url_starts. \<exists>x. \<not> is_space x \<and> prefix (p @ [x]) t)"
  unfolding url_match_iff by (auto simp: prefix_def)

lemma url_starts_spacefree: "p \<in> set url_starts \<Longrightarrow> \<forall>c \<in> set p. \<not> is_space c"
  by (auto simp: url_starts_def is_space_def)

lemma url_match_mono:
  assumes "prefix (first_token t') t" and "url_match t' \<noteq> None"
  shows "url_match t \<noteq> None"
proof -
  from assms(2) obtain p x where p: "p \<in> set url_starts" and x: "\<not> is_space x"
    and q: "prefix (p @ [x]) t'" unfolding url_window by blast
  from url_starts_spacefree [OF p] x have "\<forall>c \<in> set (p @ [x]). \<not> is_space c" by simp
  from spacefree_prefix_first_token [OF this q] assms(1) have "prefix (p @ [x]) t"
    by (rule prefix_order.order_trans)
  with p x show ?thesis unfolding url_window by blast
qed

lemma url_match_first_token: "url_match (first_token t) \<noteq> None \<longleftrightarrow> url_match t \<noteq> None"
proof
  assume "url_match (first_token t) \<noteq> None"
  moreover have "prefix (first_token (first_token t)) t"
    using first_token_prefix [of "first_token t"] first_token_prefix [of t]
    by (rule prefix_order.order_trans)
  ultimately show "url_match t \<noteq> None" by (rule url_match_mono [rotated])
next
  assume "url_match t \<noteq> None"
  moreover have "prefix (first_token t) (first_token t)" by simp
  ultimately show "url_match (first_token t) \<noteq> None" by (rule url_match_mono [rotated])
qed

lemma url_sub_first: "tok \<noteq> [] \<Longrightarrow> is_space (hd tok) \<Longrightarrow> prefix (first_token (url_sub tok s)) s"
proof (induction tok s rule: url_sub.induct)
  case (1 tok)
  show ?case by (simp add: first_token_def)
next
  case (2 tok c cs)
  show ?case
  proof (cases "url_match (c # cs)")
    case None
    with 2 show ?thesis by (auto simp: first_token_def)
  next
    case (Some r)
    from 2(3,4) have "first_token (tok @ url_sub tok r) = []"
      by (cases tok) (auto simp: first_token_def)
    with Some show ?thesis by simp
  qed
qed

lemma num_sub_first:
  "tok \<noteq> [] \<Longrightarrow> is_space (hd tok) \<Longrightarrow> prefix (first_token (num_sub tok p s)) s"
proof (induction tok p s rule: num_sub.induct)
  case (1 tok prev)
  show ?case by (simp add: first_token_def)
next
  case (2 tok prev c cs)
  show ?case
  proof (cases "num_match prev (c # cs)")
    case None
    with 2 show ?thesis by (auto simp: first_token_def)
  next
    case (Some mr)
    obtain m r where mr: "mr = (m, r)" by (cases mr)
    from 2(3,4) have "first_token (tok @ num_sub tok (Some (last m)) r) = []"
      by (cases tok) (auto simp: first_token_def)
    with Some mr show ?thesis by simp
  qed
qed

lemma url_match_nonstart: "c \<noteq> CHR ''h'' \<Longrightarrow> c \<noteq> CHR ''w'' \<Longrightarrow> url_match (c # cs) = None"
  by (simp add: url_match_def)

lemma cons_first_token_prefix:
  "prefix (first_token X) cs \<Longrightarrow> prefix (first_token (c # X)) (c # cs)"
  by (auto simp: first_token_def)

lemma url_match_cons_mono:
  assumes "prefix (first_token X) cs" and "url_match (c # cs) = None"
  shows "url_match (c # X) = None"
proof (rule ccontr)
  assume "url_match (c # X) \<noteq> None"
  from url_match_mono [OF cons_first_token_prefix [OF assms(1)] this] assms(2)
  show False by simp
qed

lemma url_free_url_sub_gen:
  assumes "tok \<noteq> []" and "is_space (hd tok)" and "\<And>X. url_free X \<Longrightarrow> url_free (tok @ X)"
  shows "url_free (url_sub tok s)"
  using assms
proof (induction tok s rule: url_sub.induct)
  case (1 tok)
  show ?case by simp
next
  case (2 tok c cs)
  note p = "2.prems"
  show ?case
  proof (cases "url_match (c # cs)")
    case None
    from url_match_cons_mono [OF url_sub_first [OF p(1,2)] None]
    have "url_match (c # url_sub tok cs) = None" .
    moreover from "2.IH"(1) [OF None p] have "url_free (url_sub tok cs)" .
    ultimately show ?thesis using None by simp
  next
    case (Some r)
    from "2.IH"(2) [OF Some p] have "url_free (url_sub tok r)" .
    then have "url_free (tok @ url_sub tok r)" by (rule p(3))
    with Some show ?thesis by simp
  qed
qed

lemma url_free_url_sub: "url_free (url_sub '' URL '' s)"
  by (rule url_free_url_sub_gen) (simp_all add: url_match_nonstart)

lemma url_free_num_sub_gen:
  assumes "tok \<noteq> []" and "is_space (hd tok)" and "\<And>X. url_free X \<Longrightarrow> url_free (tok @ X)"
    and "url_free s"
  shows "url_free (num_sub tok p s)"
  using assms
proof (induction tok p s rule: num_sub.induct)
  case (1 tok prev)
  show ?case by simp
next
  case (2 tok prev c cs)
  note p = "2.prems"
  show ?case
  proof (cases "num_match prev (c # cs)")
    case None
    from p(4) have f: "url_match (c # cs) = None" "url_free cs" by simp_all
    from url_match_cons_mono [OF num_sub_first [OF p(1,2)] f(1)]
    have "url_match (c # num_sub tok (Some c) cs) = None" .
    moreover from "2.IH"(1) [OF None p(1,2,3) f(2)]
    have "url_free (num_sub tok (Some c) cs)" .
    ultimately show ?thesis using None by simp
  next
    case (Some mr)
    obtain m r where mr: "mr = (m, r)" by (cases mr)
    from num_match_Some(1) [OF Some [unfolded mr]] have "suffix r (c # cs)"
      by (simp add: suffix_def)
    with p(4) have "url_free r" by (rule url_free_suffix)
    from "2.IH"(2) [OF Some mr [symmetric] p(1,2,3) this]
    have "url_free (num_sub tok (Some (last m)) r)" .
    then have "url_free (tok @ num_sub tok (Some (last m)) r)" by (rule p(3))
    with Some mr show ?thesis by simp
  qed
qed

lemma url_free_num_sub: "url_free s \<Longrightarrow> url_free (num_sub '' NUMBER '' p s)"
  by (rule url_free_num_sub_gen) (simp_all add: url_match_nonstart)

subsubsection \<open>The number replacement leaves no number behind\<close>

lemma num_match_nondigit: "\<not> is_digit c \<Longrightarrow> num_match p (c # cs) = None"
  by (simp add: num_match_def Let_def)

lemma num_match_None_iff: "num_match p s = None \<longleftrightarrow> word_opt p \<or> \<not> number_head s"
  using num_match_iff [of p s] by blast

lemma num_match_word_prev: "word_opt p \<Longrightarrow> num_match p s = None"
  by (simp add: num_match_None_iff)

lemma num_match_Nil [simp]: "num_match p [] = None"
  by (simp add: num_match_def Let_def)

lemma num_free_head: "s = [] \<or> \<not> is_digit (hd s) \<Longrightarrow> num_free p s = num_free p' s"
  by (cases s) (auto simp: num_match_nondigit)

lemma num_sub_head:
  "r = [] \<or> \<not> is_digit (hd r) \<Longrightarrow> num_sub tok q r = [] \<or> \<not> is_digit (hd (num_sub tok q r))"
  by (cases r) (auto simp: num_match_nondigit)

lemma num_sub_digits:
  "word_opt p \<Longrightarrow>
     takeWhile is_digit (num_sub tok p s) = takeWhile is_digit s
     \<and> (case dropWhile is_digit (num_sub tok p s) of [] \<Rightarrow> True | x # _ \<Rightarrow> \<not> is_word x)
       = (case dropWhile is_digit s of [] \<Rightarrow> True | x # _ \<Rightarrow> \<not> is_word x)"
proof (induction s arbitrary: p)
  case Nil
  show ?case by simp
next
  case (Cons d ds)
  from Cons.prems have n: "num_match p (d # ds) = None" by (rule num_match_word_prev)
  show ?case
  proof (cases "is_digit d")
    case True
    then have "word_opt (Some d)" by (simp add: word_opt_def digit_word)
    from Cons.IH [OF this] n True show ?thesis by simp
  next
    case False
    with n show ?thesis by simp
  qed
qed

lemma number_head_num_sub:
  "number_head (c # num_sub tok (Some c) cs) = number_head (c # cs)"
proof (cases "is_digit c")
  case True
  then have "word_opt (Some c)" by (simp add: word_opt_def digit_word)
  from num_sub_digits [OF this, of tok cs] True show ?thesis
    by (simp add: number_head_def)
next
  case False
  then show ?thesis by (simp add: number_head_def)
qed

lemma num_free_num_sub_gen:
  assumes "\<And>q X. num_free q (tok @ X) = num_free (Some e) X"
  shows "num_free p (num_sub tok p s)"
  using assms
proof (induction tok p s rule: num_sub.induct)
  case (1 tok prev)
  show ?case by simp
next
  case (2 tok prev c cs)
  note p = "2.prems"
  show ?case
  proof (cases "num_match prev (c # cs)")
    case None
    then have "num_match prev (c # num_sub tok (Some c) cs) = None"
      by (simp add: num_match_None_iff number_head_num_sub)
    moreover from "2.IH"(1) [OF None p] have "num_free (Some c) (num_sub tok (Some c) cs)" .
    ultimately show ?thesis using None by simp
  next
    case (Some mr)
    obtain m r where mr: "mr = (m, r)" by (cases mr)
    let ?X = "num_sub tok (Some (last m)) r"
    from "2.IH"(2) [OF Some mr [symmetric] p] have ih: "num_free (Some (last m)) ?X" .
    from num_match_Some(4) [OF Some [unfolded mr]] have "r = [] \<or> \<not> is_digit (hd r)"
      using digit_word by blast
    then have "?X = [] \<or> \<not> is_digit (hd ?X)" by (rule num_sub_head)
    from num_free_head [OF this, of "Some e" "Some (last m)"] ih
    have "num_free (Some e) ?X" by simp
    then have "num_free prev (tok @ ?X)" by (simp only: p)
    with Some mr show ?thesis by simp
  qed
qed

lemma num_free_num_sub: "num_free p (num_sub '' NUMBER '' p s)"
  by (rule num_free_num_sub_gen [where e = "CHR '' ''"])
    (simp add: num_match_nondigit is_digit_def)

lemma number_head_map:
  assumes "\<And>c. is_digit (f c) = is_digit c" and "\<And>c. is_word (f c) = is_word c"
  shows "number_head (map f t) = number_head t"
proof -
  have a: "takeWhile is_digit (map f t) = map f (takeWhile is_digit t)"
    by (simp add: takeWhile_map comp_def assms(1))
  have b: "dropWhile is_digit (map f t) = map f (dropWhile is_digit t)"
    by (simp add: dropWhile_map comp_def assms(1))
  have c: "(case map f xs of [] \<Rightarrow> True | x # _ \<Rightarrow> \<not> is_word x)
      = (case xs of [] \<Rightarrow> True | x # _ \<Rightarrow> \<not> is_word x)" for xs
    by (cases xs) (simp_all add: assms(2))
  show ?thesis unfolding number_head_def a b c by simp
qed

lemma num_free_map:
  assumes "\<And>c. is_digit (f c) = is_digit c" and "\<And>c. is_word (f c) = is_word c"
    and "num_free p s"
  shows "num_free (map_option f p) (map f s)"
  using assms(3)
proof (induction s arbitrary: p)
  case Nil
  show ?case by simp
next
  case (Cons c cs)
  have w: "word_opt (map_option f p) = word_opt p"
    by (cases p) (simp_all add: word_opt_def assms(2))
  from Cons.prems have "num_match p (c # cs) = None" by simp
  then have "num_match (map_option f p) (map f (c # cs)) = None"
    unfolding num_match_None_iff number_head_map [of f "c # cs", OF assms(1,2)] w .
  moreover from Cons.prems have "num_free (Some c) cs" by simp
  from Cons.IH [OF this] have "num_free (Some (f c)) (map f cs)" by simp
  ultimately show ?case by simp
qed

lemma punct_map_classes:
  "is_digit (if \<not> is_word c \<and> \<not> is_space c then CHR '' '' else c) = is_digit c"
  "is_word (if \<not> is_word c \<and> \<not> is_space c then CHR '' '' else c) = is_word c"
  using digit_word [of c] by auto

lemma num_free_remove_punct: "num_free None s \<Longrightarrow> num_free None (remove_punct s)"
  unfolding remove_punct_def
  using num_free_map [of "\<lambda>c. if \<not> is_word c \<and> \<not> is_space c then CHR '' '' else c" None s]
  by (simp add: punct_map_classes)

lemma num_free_lower: "num_free None s \<Longrightarrow> num_free None (str_lower s)"
  unfolding str_lower_def using num_free_map [of lower_char None s] by simp

lemma url_match_word_space:
  assumes "\<forall>c \<in> set t. is_word c \<or> is_space c"
  shows "url_match t = None"
proof (rule ccontr)
  assume "url_match t \<noteq> None"
  then obtain p x rest where p: "p \<in> set url_starts" and t: "t = p @ x # rest"
    unfolding url_match_iff by blast
  from p consider "CHR '':'' \<in> set p" | "CHR ''.'' \<in> set p"
    by (auto simp: url_starts_def)
  then show False
  proof cases
    case 1
    with t have "CHR '':'' \<in> set t" by simp
    with assms have "is_word CHR '':'' \<or> is_space CHR '':''" by blast
    then show False by (simp add: is_word_def is_space_def)
  next
    case 2
    with t have "CHR ''.'' \<in> set t" by simp
    with assms have "is_word CHR ''.'' \<or> is_space CHR ''.''" by blast
    then show False by (simp add: is_word_def is_space_def)
  qed
qed

lemma url_free_word_space: "\<forall>c \<in> set s. is_word c \<or> is_space c \<Longrightarrow> url_free s"
  by (induction s) (simp_all add: url_match_word_space)

lemma remove_punct_chars: "\<forall>c \<in> set (remove_punct s). is_word c \<or> is_space c"
  by (auto simp: remove_punct_def)

lemma url_free_remove_punct: "url_free (remove_punct s)"
  by (rule url_free_word_space) (rule remove_punct_chars)

lemma remove_punct_fix: "\<forall>c \<in> set s. is_word c \<or> is_space c \<Longrightarrow> remove_punct s = s"
  unfolding remove_punct_def by (induction s) auto

subsubsection \<open>The collapsed text is in normal form\<close>

lemma ws_sub_hd: "s = [] \<or> \<not> is_space (hd s) \<Longrightarrow> ws_sub s = [] \<or> \<not> is_space (hd (ws_sub s))"
  by (cases s) auto

lemma dropWhile_hd: "dropWhile P s = [] \<or> \<not> P (hd (dropWhile P s))"
  using hd_dropWhile by blast

lemma ws_norm_ws_sub: "ws_norm (ws_sub s)"
proof (induction s rule: ws_sub.induct)
  case 1
  show ?case by simp
next
  case (2 c cs)
  show ?case
  proof (cases "is_space c")
    case True
    from ws_sub_hd [OF dropWhile_hd [of is_space cs]] 2(1) [OF True] True
    show ?thesis by simp
  next
    case False
    with 2(2) show ?thesis by simp
  qed
qed

lemma dropWhile_id: "s = [] \<or> \<not> P (hd s) \<Longrightarrow> dropWhile P s = s"
  by (cases s) auto

lemma ws_norm_fix: "ws_norm z \<Longrightarrow> ws_sub z = z"
  by (induction z) (auto simp: dropWhile_id)

lemma ws_norm_append: "ws_norm (u @ v) \<Longrightarrow> ws_norm u \<and> ws_norm v"
proof (induction u)
  case Nil
  then show ?case by simp
next
  case (Cons c u)
  then show ?case by (cases u) auto
qed

lemma ws_norm_spaces: "ws_norm z \<Longrightarrow> c \<in> set z \<Longrightarrow> is_space c \<Longrightarrow> c = CHR '' ''"
  by (induction z) auto

lemma str_strip_decomp:
  obtains l r where "z = l @ str_strip z @ r" "\<forall>c \<in> set l. is_space c" "\<forall>c \<in> set r. is_space c"
    "str_strip z = [] \<or> (\<not> is_space (hd (str_strip z)) \<and> \<not> is_space (last (str_strip z)))"
proof -
  let ?a = "dropWhile is_space z"
  let ?b = "rev (dropWhile is_space (rev ?a))"
  let ?r = "rev (takeWhile is_space (rev ?a))"
  have b: "str_strip z = ?b" by (simp add: str_strip_def)
  have "rev ?a = takeWhile is_space (rev ?a) @ dropWhile is_space (rev ?a)" by simp
  then have "rev (rev ?a) = rev (takeWhile is_space (rev ?a) @ dropWhile is_space (rev ?a))"
    by (rule arg_cong)
  then have a: "?a = ?b @ ?r" by (simp only: rev_rev_ident rev_append)
  have z: "z = takeWhile is_space z @ ?b @ ?r"
    using a takeWhile_dropWhile_id [of is_space z] by metis
  have l: "\<forall>c \<in> set (takeWhile is_space z). is_space c" by (auto dest: set_takeWhileD)
  have r: "\<forall>c \<in> set ?r. is_space c" by (auto dest: set_takeWhileD)
  have e: "?b = [] \<or> (\<not> is_space (hd ?b) \<and> \<not> is_space (last ?b))"
  proof (cases "?b = []")
    case False
    then have ne: "dropWhile is_space (rev ?a) \<noteq> []" by simp
    have "last ?b = hd (dropWhile is_space (rev ?a))" using ne by (simp add: last_rev)
    then have 1: "\<not> is_space (last ?b)" using ne hd_dropWhile by metis
    from False a have "hd ?b = hd ?a" by (metis hd_append2)
    moreover from False a have "?a \<noteq> []" by (metis append_is_Nil_conv)
    ultimately have 2: "\<not> is_space (hd ?b)" using hd_dropWhile by metis
    from 1 2 show ?thesis by blast
  qed simp
  from that [of "takeWhile is_space z" ?r] z l r e b show thesis by simp
qed

lemma str_strip_fix:
  assumes "b = [] \<or> (\<not> is_space (hd b) \<and> \<not> is_space (last b))"
  shows "str_strip b = b"
proof (cases "b = []")
  case True
  then show ?thesis by (simp add: str_strip_def)
next
  case False
  with assms have h: "\<not> is_space (hd b)" and l: "\<not> is_space (last b)" by blast+
  from False h have 1: "dropWhile is_space b = b" by (simp add: dropWhile_id)
  from False l have "\<not> is_space (hd (rev b))" by (simp add: hd_rev)
  with False have 2: "dropWhile is_space (rev b) = rev b" by (simp add: dropWhile_id)
  show ?thesis by (simp add: str_strip_def 1 2)
qed

lemma collapse_ws_norm: "ws_norm (collapse_ws s)"
proof -
  obtain l r where "ws_sub s = l @ str_strip (ws_sub s) @ r"
    by (rule str_strip_decomp [of "ws_sub s"])
  with ws_norm_ws_sub [of s] have "ws_norm (l @ str_strip (ws_sub s) @ r)" by simp
  then show ?thesis unfolding collapse_ws_def by (meson ws_norm_append)
qed

lemma collapse_ws_ends:
  "collapse_ws s = [] \<or> (\<not> is_space (hd (collapse_ws s)) \<and> \<not> is_space (last (collapse_ws s)))"
  unfolding collapse_ws_def by (rule str_strip_decomp [of "ws_sub s"])

lemma collapse_ws_idem: "collapse_ws (collapse_ws s) = collapse_ws s"
proof -
  have "ws_sub (collapse_ws s) = collapse_ws s" by (rule ws_norm_fix [OF collapse_ws_norm])
  then have "collapse_ws (collapse_ws s) = str_strip (collapse_ws s)"
    by (simp add: collapse_ws_def)
  also have "\<dots> = collapse_ws s" by (rule str_strip_fix [OF collapse_ws_ends])
  finally show ?thesis .
qed

lemma ws_sub_set: "set (ws_sub s) \<subseteq> insert (CHR '' '') (set s)"
proof (induction s rule: ws_sub.induct)
  case 1
  show ?case by simp
next
  case (2 c cs)
  have "set (dropWhile is_space cs) \<subseteq> set cs" by (auto dest: set_dropWhileD)
  with 2 show ?case by (cases "is_space c") auto
qed

lemma str_strip_set: "set (str_strip z) \<subseteq> set z"
proof -
  obtain l r where "z = l @ str_strip z @ r" by (rule str_strip_decomp [of z])
  then have "set z = set l \<union> set (str_strip z) \<union> set r" by (metis set_append Un_assoc)
  then show ?thesis by blast
qed

lemma collapse_ws_set: "set (collapse_ws s) \<subseteq> insert (CHR '' '') (set s)"
  unfolding collapse_ws_def using str_strip_set [of "ws_sub s"] ws_sub_set [of s] by blast

lemma collapse_ws_spaces: "c \<in> set (collapse_ws s) \<Longrightarrow> is_space c \<Longrightarrow> c = CHR '' ''"
  using ws_norm_spaces [OF collapse_ws_norm] by blast

subsubsection \<open>Collapsing whitespace creates no match\<close>

lemma first_token_ws_sub: "first_token (ws_sub s) = first_token s"
  by (induction s rule: ws_sub.induct) (auto simp: first_token_def)

lemma prev_word_simps:
  "prev_word [] = False"
  "prev_word (u @ v) = (if v = [] then prev_word u else prev_word v)"
  "prev_word [c] = is_word c"
  by (auto simp: prev_word_def)

lemma prev_word_spaces: "\<forall>c \<in> set u. is_space c \<Longrightarrow> \<not> prev_word u"
  unfolding prev_word_def using word_not_space last_in_set by blast

lemma ws_sub_ctx:
  assumes "ws_sub s = u' @ t'" and "t' \<noteq> []" and "\<not> is_space (hd t')"
  shows "\<exists>u t. s = u @ t \<and> first_token t = first_token t'
           \<and> (u = [] \<longleftrightarrow> u' = []) \<and> prev_word u = prev_word u'"
  using assms
proof (induction s arbitrary: u' rule: ws_sub.induct)
  case 1
  then show ?case by simp
next
  case (2 c cs)
  show ?case
  proof (cases "is_space c")
    case True
    with "2.prems"(1) have e: "CHR '' '' # ws_sub (dropWhile is_space cs) = u' @ t'" by simp
    with "2.prems"(2,3) obtain u2 where u': "u' = CHR '' '' # u2"
      and r: "ws_sub (dropWhile is_space cs) = u2 @ t'"
      by (cases u') auto
    from "2.IH"(1) [OF True r "2.prems"(2,3)] obtain u0 t
      where d: "dropWhile is_space cs = u0 @ t" and f: "first_token t = first_token t'"
        and n: "u0 = [] \<longleftrightarrow> u2 = []" and w: "prev_word u0 = prev_word u2"
      by blast
    let ?u = "(c # takeWhile is_space cs) @ u0"
    have "c # cs = c # takeWhile is_space cs @ dropWhile is_space cs" by simp
    then have s: "c # cs = ?u @ t" unfolding d by simp
    have sp: "\<not> prev_word (c # takeWhile is_space cs)"
      by (rule prev_word_spaces) (use True in \<open>auto dest: set_takeWhileD\<close>)
    have "prev_word ?u = prev_word u'"
    proof (cases "u0 = []")
      case True
      with n have "u2 = []" by simp
      with True sp u' show ?thesis by (simp add: prev_word_def)
    next
      case False
      with n have "u2 \<noteq> []" by simp
      with False w u' show ?thesis by (simp add: prev_word_def)
    qed
    with s f u' show ?thesis by blast
  next
    case False
    with "2.prems"(1) have e: "c # ws_sub cs = u' @ t'" by simp
    show ?thesis
    proof (cases u')
      case Nil
      with e have "t' = c # ws_sub cs" by simp
      then have "first_token (c # cs) = first_token t'"
        using False first_token_ws_sub [of cs] by (simp add: first_token_def)
      with Nil show ?thesis by (intro exI [of _ "[]"] exI [of _ "c # cs"]) simp
    next
      case (Cons a u2)
      with e have a: "a = c" and r: "ws_sub cs = u2 @ t'" by simp_all
      from "2.IH"(2) [OF False r "2.prems"(2,3)] obtain u0 t
        where d: "cs = u0 @ t" and f: "first_token t = first_token t'"
          and n: "u0 = [] \<longleftrightarrow> u2 = []" and w: "prev_word u0 = prev_word u2"
        by blast
      have "prev_word (c # u0) = prev_word (c # u2)"
        using n w by (cases "u0 = []") (auto simp: prev_word_def)
      with d f Cons a show ?thesis
        by (intro exI [of _ "c # u0"] exI [of _ t]) simp
    qed
  qed
qed

lemma first_token_append_spaces:
  "\<forall>c \<in> set r. is_space c \<Longrightarrow> first_token (t @ r) = first_token t"
proof -
  assume r: "\<forall>c \<in> set r. is_space c"
  have "takeWhile (\<lambda>c. \<not> is_space c) r = []" using r by (cases r) auto
  then show ?thesis unfolding first_token_def
    by (simp add: takeWhile_append takeWhile_eq_all_conv [THEN iffD2])
qed

lemma collapse_ctx:
  assumes "collapse_ws s = u' @ t'" and "t' \<noteq> []" and "\<not> is_space (hd t')"
  shows "\<exists>u t. s = u @ t \<and> first_token t = first_token t' \<and> prev_word u = prev_word u'"
proof -
  obtain l r where z: "ws_sub s = l @ str_strip (ws_sub s) @ r"
    and l: "\<forall>c \<in> set l. is_space c" and r: "\<forall>c \<in> set r. is_space c"
    by (rule str_strip_decomp [of "ws_sub s"])
  from z assms(1) have e: "ws_sub s = (l @ u') @ (t' @ r)" by (simp add: collapse_ws_def)
  have "\<not> is_space (hd (t' @ r))" "t' @ r \<noteq> []" using assms(2,3) by simp_all
  from ws_sub_ctx [OF e this(2,1)] obtain u t where s: "s = u @ t"
    and f: "first_token t = first_token (t' @ r)" and w: "prev_word u = prev_word (l @ u')"
    by blast
  have "prev_word (l @ u') = prev_word u'"
    using prev_word_spaces [OF l] by (simp add: prev_word_simps)
  with w have "prev_word u = prev_word u'" by simp
  moreover from f first_token_append_spaces [OF r, of t']
  have "first_token t = first_token t'" by simp
  ultimately show ?thesis using s by blast
qed

lemma url_free_collapse: "url_free s \<Longrightarrow> url_free (collapse_ws s)"
  unfolding url_free_iff
proof (intro allI impI, rule ccontr)
  fix t'
  assume free: "\<forall>t. suffix t s \<longrightarrow> url_match t = None"
    and suf: "suffix t' (collapse_ws s)" and m: "url_match t' \<noteq> None"
  from m obtain p x rest where p: "p \<in> set url_starts" and t': "t' = p @ x # rest"
    unfolding url_match_iff by blast
  from p have pn: "p \<noteq> []" by (auto simp: url_starts_def)
  then have "hd p \<in> set p" by simp
  with url_starts_spacefree [OF p] have "\<not> is_space (hd p)" by blast
  moreover from pn t' have "hd t' = hd p" by simp
  ultimately have h: "\<not> is_space (hd t')" by simp
  from t' have ne: "t' \<noteq> []" by simp
  from suf obtain u' where "collapse_ws s = u' @ t'" by (auto simp: suffix_def)
  from collapse_ctx [OF this ne h] obtain u t where s: "s = u @ t"
    and f: "first_token t = first_token t'" by blast
  have "url_match (first_token t) \<noteq> None"
    unfolding f by (rule url_match_first_token [THEN iffD2, OF m])
  then have n: "url_match t \<noteq> None" by (rule url_match_first_token [THEN iffD1])
  from s have "suffix t s" by (simp add: suffix_def)
  with free have "url_match t = None" by simp
  with n show False by simp
qed



lemma num_free_iff:
  "num_free p s \<longleftrightarrow>
     (\<forall>u t. s = u @ t \<longrightarrow> num_match (if u = [] then p else Some (last u)) t = None)"
proof (induction s arbitrary: p)
  case Nil
  show ?case by simp
next
  case (Cons c cs)
  show ?case
  proof
    assume a: "num_free p (c # cs)"
    show "\<forall>u t. c # cs = u @ t \<longrightarrow> num_match (if u = [] then p else Some (last u)) t = None"
    proof (intro allI impI)
      fix u t
      assume e: "c # cs = u @ t"
      show "num_match (if u = [] then p else Some (last u)) t = None"
      proof (cases u)
        case Nil
        with e have "t = c # cs" by simp
        with a Nil show ?thesis by simp
      next
        case (Cons a' u0)
        with e have "cs = u0 @ t" and "a' = c" by simp_all
        from a have "num_free (Some c) cs" by simp
        then have "\<forall>u t. cs = u @ t
            \<longrightarrow> num_match (if u = [] then Some c else Some (last u)) t = None"
          by (simp only: Cons.IH)
        with \<open>cs = u0 @ t\<close>
        have "num_match (if u0 = [] then Some c else Some (last u0)) t = None" by blast
        with Cons \<open>a' = c\<close> show ?thesis by (simp split: if_splits)
      qed
    qed
  next
    assume a: "\<forall>u t. c # cs = u @ t \<longrightarrow> num_match (if u = [] then p else Some (last u)) t = None"
    from a [rule_format, of "[]" "c # cs"] have 1: "num_match p (c # cs) = None" by simp
    have "num_free (Some c) cs" unfolding Cons.IH
    proof (intro allI impI)
      fix u t
      assume "cs = u @ t"
      then have "c # cs = (c # u) @ t" by simp
      from a [rule_format, OF this]
      show "num_match (if u = [] then Some c else Some (last u)) t = None"
        by (cases "u = []") simp_all
    qed
    with 1 show "num_free p (c # cs)" by simp
  qed
qed

lemma takeWhile_digit_first_token:
  "takeWhile is_digit (first_token t) = takeWhile is_digit t"
proof (induction t)
  case Nil
  show ?case by (simp add: first_token_def)
next
  case (Cons c cs)
  show ?case
  proof (cases "is_digit c")
    case True
    then have "\<not> is_space c" using digit_word word_not_space by blast
    with True Cons show ?thesis by (simp add: first_token_def)
  next
    case False
    then show ?thesis by (simp add: first_token_def)
  qed
qed

lemma dropWhile_digit_first_token:
  "(case dropWhile is_digit (first_token t) of [] \<Rightarrow> True | x # _ \<Rightarrow> \<not> is_word x)
      = (case dropWhile is_digit t of [] \<Rightarrow> True | x # _ \<Rightarrow> \<not> is_word x)"
proof (induction t)
  case Nil
  show ?case by (simp add: first_token_def)
next
  case (Cons c cs)
  show ?case
  proof (cases "is_digit c")
    case True
    then have "\<not> is_space c" using digit_word word_not_space by blast
    with True Cons show ?thesis by (simp add: first_token_def)
  next
    case False
    show ?thesis
    proof (cases "is_space c")
      case True
      then have "\<not> is_word c" using word_not_space by blast
      with True False show ?thesis by (simp add: first_token_def)
    next
      case sp: False
      with False show ?thesis by (simp add: first_token_def)
    qed
  qed
qed

lemma number_head_first_token: "number_head (first_token t) = number_head t"
  unfolding number_head_def takeWhile_digit_first_token dropWhile_digit_first_token ..

lemma num_free_collapse: "num_free None s \<Longrightarrow> num_free None (collapse_ws s)"
  unfolding num_free_iff
proof (intro allI impI, rule ccontr)
  fix u' t'
  assume free: "\<forall>u t. s = u @ t \<longrightarrow> num_match (if u = [] then None else Some (last u)) t = None"
    and e: "collapse_ws s = u' @ t'"
    and m: "num_match (if u' = [] then None else Some (last u')) t' \<noteq> None"
  have wp: "word_opt (if v = [] then None else Some (last v)) = prev_word v" for v
    by (simp add: word_opt_def prev_word_def)
  from m have nw: "\<not> prev_word u'" and nh: "number_head t'"
    unfolding num_match_iff wp by simp_all
  from nh obtain d ds where t': "t' = d # ds" and d: "is_digit d"
    by (cases t') (auto simp: number_head_def split: if_splits)
  then have ne: "t' \<noteq> []" and h: "\<not> is_space (hd t')"
    using digit_word word_not_space by auto
  from collapse_ctx [OF e ne h] obtain u t where s: "s = u @ t"
    and f: "first_token t = first_token t'" and w: "prev_word u = prev_word u'" by blast
  from nh have "number_head t"
    using number_head_first_token [of t] number_head_first_token [of t'] f by simp
  with nw w have "num_match (if u = [] then None else Some (last u)) t \<noteq> None"
    unfolding num_match_iff wp by simp
  moreover from free s have "num_match (if u = [] then None else Some (last u)) t = None"
    by simp
  ultimately show False by simp
qed

subsubsection \<open>The second application\<close>

lemma strip_headers_no_newline:
  assumes "CHR 0x0A \<notin> set s"
  shows "strip_headers_fn s = s"
proof -
  have "\<forall>sep \<in> set blank_seps. \<not> sublist sep s"
  proof (intro ballI notI)
    fix sep
    assume "sep \<in> set blank_seps" and "sublist sep s"
    from this(2) have "set sep \<subseteq> set s" by (rule set_mono_sublist)
    moreover from \<open>sep \<in> set blank_seps\<close> have "CHR 0x0A \<in> set sep"
      by (auto simp: blank_seps_def)
    ultimately show False using assms by blast
  qed
  then have "re_split1 s = [s]" by (rule re_split1_none)
  then show ?thesis by (simp add: strip_headers_fn_def)
qed

lemma collapse_ws_no_newline: "CHR 0x0A \<notin> set (collapse_ws s)"
proof
  assume "CHR 0x0A \<in> set (collapse_ws s)"
  from collapse_ws_spaces [OF this] show False by simp
qed

lemma url_sub_set: "set (url_sub tok s) \<subseteq> set tok \<union> set s"
proof (induction tok s rule: url_sub.induct)
  case (1 tok)
  show ?case by simp
next
  case (2 tok c cs)
  show ?case
  proof (cases "url_match (c # cs)")
    case None
    with "2.IH"(1) [OF None] show ?thesis by auto
  next
    case (Some r)
    from url_match_suffix [OF Some] have "set r \<subseteq> set (c # cs)" by (rule set_mono_suffix)
    with "2.IH"(2) [OF Some] Some show ?thesis by auto
  qed
qed

lemma num_sub_set: "set (num_sub tok p s) \<subseteq> set tok \<union> set s"
proof (induction tok p s rule: num_sub.induct)
  case (1 tok prev)
  show ?case by simp
next
  case (2 tok prev c cs)
  show ?case
  proof (cases "num_match prev (c # cs)")
    case None
    with "2.IH"(1) [OF None] show ?thesis by auto
  next
    case (Some mr)
    obtain m r where mr: "mr = (m, r)" by (cases mr)
    from num_match_Some(1) [OF Some [unfolded mr]] have "set r \<subseteq> set (c # cs)"
      by (metis set_append Un_upper2)
    with "2.IH"(2) [OF Some mr [symmetric]] Some mr show ?thesis by auto
  qed
qed

lemma remove_punct_set: "set (remove_punct s) \<subseteq> insert (CHR '' '') (set s)"
  by (auto simp: remove_punct_def)

lemma lower_space [simp]: "lower_char (CHR '' '') = CHR '' ''"
  by (simp add: lower_char_def)

lemma lower_sentinel: "map lower_char ''URLNMBE'' = ''urlnmbe''"
  by code_simp

lemma char_ok_start:
  assumes "char_ok c" and "lower_char c \<in> set ''htps:/w.''"
  shows "lower_char c = c"
proof (rule ccontr)
  assume "lower_char c \<noteq> c"
  with assms(1) have "c \<in> set ''URLNMBE''" by (simp add: char_ok_def)
  then have "lower_char c \<in> set (map lower_char ''URLNMBE'')"
    unfolding set_map by (rule imageI)
  then have "lower_char c \<in> set ''urlnmbe''" by (simp only: lower_sentinel)
  with assms(2) show False by auto
qed

lemma url_starts_chars: "p \<in> set url_starts \<Longrightarrow> set p \<subseteq> set ''htps:/w.''"
  by (auto simp: url_starts_def)

lemma url_free_lower:
  assumes "\<forall>c \<in> set y. char_ok c" and "url_free y"
  shows "url_free (str_lower y)"
  unfolding url_free_iff
proof (intro allI impI, rule ccontr)
  fix t'
  assume suf: "suffix t' (str_lower y)" and m: "url_match t' \<noteq> None"
  from suf obtain a where "map lower_char y = a @ t'" by (auto simp: suffix_def str_lower_def)
  then obtain ya t where y: "y = ya @ t" and t: "t' = map lower_char t"
    by (auto simp: map_eq_append_conv)
  from m obtain p x rest where p: "p \<in> set url_starts" and e: "t' = p @ x # rest"
    and x: "\<not> is_space x" unfolding url_match_iff by blast
  from e t obtain u x0 rest0 where t0: "t = u @ x0 # rest0" and u: "map lower_char u = p"
    and x0: "lower_char x0 = x"
    by (auto simp: map_eq_append_conv map_eq_Cons_conv)
  have "map lower_char u = u"
  proof (rule map_idI)
    fix c assume c: "c \<in> set u"
    with y t0 assms(1) have "char_ok c" by simp
    moreover from c u have "lower_char c \<in> set p" by auto
    with url_starts_chars [OF p] have "lower_char c \<in> set ''htps:/w.''" by blast
    ultimately show "lower_char c = c" by (rule char_ok_start)
  qed
  with u have "u = p" by simp
  moreover from x x0 have "\<not> is_space x0" by auto
  ultimately have "url_match t \<noteq> None" unfolding url_match_iff using t0 p by blast
  moreover from y have "suffix t y" by (simp add: suffix_def)
  with assms(2) have "url_match t = None" unfolding url_free_iff by simp
  ultimately show False by simp
qed

lemma ws_norm_lower: "ws_norm z \<Longrightarrow> ws_norm (str_lower z)"
  unfolding str_lower_def
proof (induction z)
  case Nil
  show ?case by simp
next
  case (Cons c cs)
  then show ?case by (cases cs) auto
qed

lemma collapse_fix:
  assumes "ws_norm z" and "z = [] \<or> (\<not> is_space (hd z) \<and> \<not> is_space (last z))"
  shows "collapse_ws z = z"
  unfolding collapse_ws_def ws_norm_fix [OF assms(1)] by (rule str_strip_fix [OF assms(2)])

lemma collapse_lower_fix: "collapse_ws (str_lower (collapse_ws s)) = str_lower (collapse_ws s)"
proof (rule collapse_fix)
  show "ws_norm (str_lower (collapse_ws s))" by (rule ws_norm_lower [OF collapse_ws_norm])
  show "str_lower (collapse_ws s) = []
      \<or> (\<not> is_space (hd (str_lower (collapse_ws s))) \<and> \<not> is_space (last (str_lower (collapse_ws s))))"
    using collapse_ws_ends [of s] by (auto simp: str_lower_def hd_map last_map)
qed

lemma char_ok_tokens:
  "\<forall>c \<in> set '' URL ''. char_ok c" "\<forall>c \<in> set '' NUMBER ''. char_ok c" "char_ok (CHR '' '')"
  by (simp_all add: char_ok_def)

lemma char_ok_lower: "\<forall>c \<in> set (str_lower s). lower_char c = c"
  by (simp add: str_lower_def)

lemma second_pass:
  assumes "\<not> do_stemming self"
    and "strip_headers_fn y = y"
    and "f = (if lowercase self then str_lower y else y)"
    and "replace_urls self \<Longrightarrow> url_free f"
    and "replace_numbers self \<Longrightarrow> num_free None f"
    and "remove_punctuation self \<Longrightarrow> \<forall>c \<in> set f. is_word c \<or> is_space c"
    and "collapse_ws f = f"
  shows "transform_text stemmer self y = f"
proof -
  have 1: "(if strip_headers self then strip_headers_fn y else y) = y"
    by (simp add: assms(2))
  have 3: "(if replace_urls self then replace_urls_fn f else f) = f"
    using assms(4) by (simp add: replace_urls_fn_def url_free_fix)
  have 4: "(if replace_numbers self then replace_numbers_fn f else f) = f"
    using assms(5) by (simp add: replace_numbers_fn_def num_free_fix)
  have 5: "(if remove_punctuation self then remove_punct f else f) = f"
    using assms(6) by (simp add: remove_punct_fix)
  show ?thesis
    unfolding transform_text_def Let_def 1 assms(3) [symmetric] 3 4 5
    using assms(1,7) by simp
qed

text \<open>
  One text: with stemming disabled, the body of the loop applied to its own result
  changes at most the letter case: the result is the first result, lowercased when
  \<open>lowercase\<close> is set (the tokens \<open>URL\<close> and \<open>NUMBER\<close> become \<open>url\<close> and
  \<open>number\<close>).
\<close>

lemma transform_text_twice:
  assumes "\<not> do_stemming self"
  shows "transform_text stemmer self (transform_text stemmer self x)
           = (if lowercase self then str_lower (transform_text stemmer self x)
              else transform_text stemmer self x)
       \<and> (\<not> lowercase self \<or> (\<not> replace_urls self \<and> \<not> replace_numbers self) \<longrightarrow>
            transform_text stemmer self (transform_text stemmer self x)
              = transform_text stemmer self x)"
proof -
  define h where "h = (if strip_headers self then strip_headers_fn x else x)"
  define w0 where "w0 = (if lowercase self then str_lower h else h)"
  define z1 where "z1 = (if replace_urls self then replace_urls_fn w0 else w0)"
  define z2 where "z2 = (if replace_numbers self then replace_numbers_fn z1 else z1)"
  define z3 where "z3 = (if remove_punctuation self then remove_punct z2 else z2)"
  define y where "y = collapse_ws z3"
  define f where "f = (if lowercase self then str_lower y else y)"
  have ty: "transform_text stemmer self x = y"
    using assms by (simp add: transform_text_def Let_def h_def w0_def z1_def z2_def z3_def y_def)
  have nl: "strip_headers_fn y = y"
    unfolding y_def by (rule strip_headers_no_newline [OF collapse_ws_no_newline])
  have sub_y: "set y \<subseteq> insert (CHR '' '') (set z3)"
    unfolding y_def by (rule collapse_ws_set)
  have sub_z3: "set z3 \<subseteq> insert (CHR '' '') (set z2)"
    unfolding z3_def using remove_punct_set [of z2] by auto
  have sub_z2: "set z2 \<subseteq> set '' NUMBER '' \<union> set z1"
    unfolding z2_def replace_numbers_fn_def using num_sub_set [of "'' NUMBER ''" None z1] by auto
  have sub_z1: "set z1 \<subseteq> set '' URL '' \<union> set w0"
    unfolding z1_def replace_urls_fn_def using url_sub_set [of "'' URL ''" w0] by auto
  have uf: "url_free y" if ru: "replace_urls self"
  proof -
    from ru have "url_free z1" by (simp add: z1_def replace_urls_fn_def url_free_url_sub)
    then have "url_free z2" by (simp add: z2_def replace_numbers_fn_def url_free_num_sub)
    then have "url_free z3" by (simp add: z3_def url_free_remove_punct)
    then show ?thesis unfolding y_def by (rule url_free_collapse)
  qed
  have nf: "num_free None y" if rn: "replace_numbers self"
  proof -
    from rn have "num_free None z2" by (simp add: z2_def replace_numbers_fn_def num_free_num_sub)
    then have "num_free None z3" by (simp add: z3_def num_free_remove_punct)
    then show ?thesis unfolding y_def by (rule num_free_collapse)
  qed
  have ws: "\<forall>c \<in> set y. is_word c \<or> is_space c" if rp: "remove_punctuation self"
  proof
    fix c assume "c \<in> set y"
    with sub_y have "c = CHR '' '' \<or> c \<in> set z3" by blast
    then show "is_word c \<or> is_space c"
      using rp remove_punct_chars [of z2] by (auto simp: z3_def)
  qed
  have ok: "\<forall>c \<in> set y. char_ok c" if lc: "lowercase self"
  proof -
    from lc have "\<forall>c \<in> set w0. char_ok c"
      using char_ok_lower [of h] by (simp add: w0_def char_ok_def)
    with sub_z1 char_ok_tokens(1) have "\<forall>c \<in> set z1. char_ok c" by blast
    with sub_z2 char_ok_tokens(2) have "\<forall>c \<in> set z2. char_ok c" by blast
    with sub_z3 char_ok_tokens(3) have "\<forall>c \<in> set z3. char_ok c" by blast
    with sub_y char_ok_tokens(3) show ?thesis by blast
  qed
  have u: "url_free f" if ru: "replace_urls self"
    unfolding f_def using uf [OF ru] url_free_lower [OF ok uf [OF ru]] by simp
  have n: "num_free None f" if rn: "replace_numbers self"
    unfolding f_def using nf [OF rn] num_free_lower [OF nf [OF rn]] by simp
  have p: "\<forall>c \<in> set f. is_word c \<or> is_space c" if rp: "remove_punctuation self"
    unfolding f_def using ws [OF rp] by (auto simp: str_lower_def)
  have c: "collapse_ws f = f"
    unfolding f_def y_def by (simp add: collapse_lower_fix collapse_ws_idem)
  have twice: "transform_text stemmer self y = f"
    using assms nl f_def u n p c by (rule second_pass)
  have same: "f = y" if "\<not> lowercase self \<or> (\<not> replace_urls self \<and> \<not> replace_numbers self)"
  proof (cases "lowercase self")
    case False
    then show ?thesis by (simp add: f_def)
  next
    case True
    with that have "z2 = w0" by (simp add: z1_def z2_def)
    moreover from True have "\<forall>c \<in> set w0. lower_char c = c"
      using char_ok_lower [of h] by (simp add: w0_def)
    ultimately have "\<forall>c \<in> set z3. lower_char c = c" using sub_z3 by auto
    with sub_y have "\<forall>c \<in> set y. lower_char c = c" by auto
    then have "map lower_char y = y" by (intro map_idI) simp
    with True show ?thesis by (simp add: f_def str_lower_def)
  qed
  show ?thesis unfolding ty twice using same by (simp add: f_def)
qed

subsection \<open>The URL example\<close>

lemma url_example_steps:
  "strip_headers_fn ''visit http://x.com/y now'' = ''visit http://x.com/y now''"
  "str_lower ''visit http://x.com/y now'' = ''visit http://x.com/y now''"
  "replace_urls_fn ''visit http://x.com/y now'' = ''visit  URL  now''"
  "replace_numbers_fn ''visit  URL  now'' = ''visit  URL  now''"
  "remove_punct ''visit  URL  now'' = ''visit  URL  now''"
  "collapse_ws ''visit  URL  now'' = ''visit URL now''"
  by code_simp+

lemma url_example:
  "transform_text stemmer default_preprocessor ''visit http://x.com/y now'' = ''visit URL now''"
  by (simp only: default_pipeline url_example_steps)

lemma url_example_facts:
  "\<not> py_in ''url'' ''visit URL now''"
  "\<not> py_in ''http://x.com/y'' ''visit URL now''"
  "''URL'' \<in> set (str_split ''visit URL now'')"
  by code_simp+

text \<open>
  Claim C2, as stated: the output for \<open>"visit http://x.com/y now"\<close> under the default
  configuration contains the token \<open>url\<close> and not the original URL. It fails: the
  lowercasing comes before the replacement, which inserts the token in upper case, so the
  string \<open>url\<close> does not occur in the output at all.
\<close>

theorem url_example_lowercase_token_counterexample:
  "\<not> (sublist ''url'' (transform_text id default_preprocessor ''visit http://x.com/y now'')
      \<and> \<not> sublist ''http://x.com/y''
            (transform_text id default_preprocessor ''visit http://x.com/y now''))"
proof -
  have "\<not> sublist ''url'' ''visit URL now''"
    by (rule url_example_facts(1) [unfolded py_in_sublist])
  then show ?thesis by (simp add: url_example)
qed

text \<open>
  Claim C2, amended: the output is \<open>"visit URL now"\<close>; it contains the token \<open>URL\<close>, in
  upper case, and the original URL does not occur in it.
\<close>

theorem url_example_token:
  "transform_text stemmer default_preprocessor ''visit http://x.com/y now'' = ''visit URL now''
   \<and> ''URL'' \<in> set (str_split
         (transform_text stemmer default_preprocessor ''visit http://x.com/y now''))
   \<and> \<not> sublist ''http://x.com/y''
         (transform_text stemmer default_preprocessor ''visit http://x.com/y now'')"
proof -
  have "\<not> sublist ''http://x.com/y'' ''visit URL now''"
    by (rule url_example_facts(2) [unfolded py_in_sublist])
  with url_example_facts(3) show ?thesis by (simp add: url_example)
qed

lemma url_example_second_pass_steps:
  "strip_headers_fn ''visit URL now'' = ''visit URL now''"
  "str_lower ''visit URL now'' = ''visit url now''"
  "replace_urls_fn ''visit url now'' = ''visit url now''"
  "replace_numbers_fn ''visit url now'' = ''visit url now''"
  "remove_punct ''visit url now'' = ''visit url now''"
  "collapse_ws ''visit url now'' = ''visit url now''"
  by code_simp+

lemma url_example_second_pass:
  "transform_text stemmer default_preprocessor ''visit URL now'' = ''visit url now''"
  by (simp only: default_pipeline url_example_second_pass_steps)

subsection \<open>The number example\<close>

lemma number_example_steps:
  "strip_headers_fn ''call 555-1234 or 42.5 now'' = ''call 555-1234 or 42.5 now''"
  "str_lower ''call 555-1234 or 42.5 now'' = ''call 555-1234 or 42.5 now''"
  "replace_urls_fn ''call 555-1234 or 42.5 now'' = ''call 555-1234 or 42.5 now''"
  "replace_numbers_fn ''call 555-1234 or 42.5 now'' = ''call  NUMBER - NUMBER  or  NUMBER  now''"
  "remove_punct ''call  NUMBER - NUMBER  or  NUMBER  now''
     = ''call  NUMBER   NUMBER  or  NUMBER  now''"
  "collapse_ws ''call  NUMBER   NUMBER  or  NUMBER  now'' = ''call NUMBER NUMBER or NUMBER now''"
  by code_simp+

lemma number_example:
  "transform_text stemmer default_preprocessor ''call 555-1234 or 42.5 now''
     = ''call NUMBER NUMBER or NUMBER now''"
  by (simp only: default_pipeline number_example_steps)

lemma number_example_facts:
  "\<not> py_in ''number'' ''call NUMBER NUMBER or NUMBER now''"
  "str_split ''call NUMBER NUMBER or NUMBER now''
     = [''call'', ''NUMBER'', ''NUMBER'', ''or'', ''NUMBER'', ''now'']"
  by code_simp+

text \<open>
  Claim C4, as stated: for \<open>"call 555-1234 or 42.5 now"\<close> the numeric tokens are replaced
  with the token \<open>number\<close>. It fails for the same reason as C2: the token is inserted in
  upper case after the lowercasing, and \<open>number\<close> does not occur in the output.
\<close>

theorem number_example_lowercase_token_counterexample:
  "\<not> sublist ''number''
        (transform_text id default_preprocessor ''call 555-1234 or 42.5 now'')"
proof -
  have "\<not> sublist ''number'' ''call NUMBER NUMBER or NUMBER now''"
    by (rule number_example_facts(1) [unfolded py_in_sublist])
  then show ?thesis by (simp add: number_example)
qed

text \<open>
  Claim C4, amended: \<open>555\<close>, \<open>1234\<close> and \<open>42.5\<close> are each replaced with the token
  \<open>NUMBER\<close>, in upper case, and the tokens \<open>call\<close>, \<open>or\<close> and \<open>now\<close> are kept, in their
  places.
\<close>

theorem number_example_tokens:
  "transform_text stemmer default_preprocessor ''call 555-1234 or 42.5 now''
     = ''call NUMBER NUMBER or NUMBER now''
   \<and> str_split (transform_text stemmer default_preprocessor ''call 555-1234 or 42.5 now'')
     = [''call'', ''NUMBER'', ''NUMBER'', ''or'', ''NUMBER'', ''now'']"
  using number_example_facts(2) by (simp add: number_example)

subsection \<open>Applying \<open>transform\<close> twice\<close>

text \<open>
  \<open>transform\<close> returns the normalized texts as a numpy array, so that a text which
  ends with NUL characters comes back without them. The lemmas below show that the
  normalized text holds no NUL character when the given text holds none or the
  punctuation, to which NUL belongs, is removed; the array then returns it as it is.
\<close>

lemma re_split1_cases:
  "re_split1 s = [s] \<or> (\<exists>p r. re_split1 s = [p, r] \<and> suffix r s)"
proof (induction s)
  case Nil
  show ?case by simp
next
  case (Cons c cs)
  show ?case
  proof (cases "match_blank (c # cs)")
    case (Some r)
    then obtain sep where "c # cs = sep @ r" unfolding match_blank_iff by blast
    then have "suffix r (c # cs)" by (simp add: suffix_def)
    with Some show ?thesis by simp
  next
    case None
    from Cons.IH show ?thesis
    proof
      assume "re_split1 cs = [cs]"
      with None show ?thesis by simp
    next
      assume "\<exists>p r. re_split1 cs = [p, r] \<and> suffix r cs"
      then obtain p r where "re_split1 cs = [p, r]" and "suffix r cs" by blast
      with None show ?thesis by (simp add: suffix_Cons)
    qed
  qed
qed

lemma strip_headers_set: "set (strip_headers_fn s) \<subseteq> set s"
proof -
  from re_split1_cases [of s] show ?thesis
  proof
    assume "re_split1 s = [s]"
    then show ?thesis by (simp add: strip_headers_fn_def)
  next
    assume "\<exists>p r. re_split1 s = [p, r] \<and> suffix r s"
    then obtain p r where "re_split1 s = [p, r]" and "suffix r s" by blast
    then show ?thesis by (simp add: strip_headers_fn_def set_mono_suffix)
  qed
qed

lemma nul_facts: "\<not> is_space (CHR 0x00)" "\<not> is_word (CHR 0x00)"
  "CHR 0x00 \<notin> set '' URL ''" "CHR 0x00 \<notin> set '' NUMBER ''"
  by (simp_all add: is_space_def is_word_def)

lemma lower_char_nul: "lower_char c = CHR 0x00 \<Longrightarrow> c = CHR 0x00"
proof -
  assume a: "lower_char c = CHR 0x00"
  have "(of_char (lower_char c) :: nat) = 0" unfolding a by simp
  then have "(of_char c :: nat) = 0"
    unfolding of_char_lower by (simp add: Let_def split: if_splits)
  then have "(of_char c :: nat) = of_char (CHR 0x00)" by simp
  then show ?thesis by (simp only: of_char_eq_iff)
qed

lemma str_lower_nul: "CHR 0x00 \<notin> set s \<Longrightarrow> CHR 0x00 \<notin> set (str_lower s)"
proof
  assume n: "CHR 0x00 \<notin> set s" and "CHR 0x00 \<in> set (str_lower s)"
  then obtain c where c: "c \<in> set s" and "lower_char c = CHR 0x00"
    by (auto simp: str_lower_def)
  from this(2) have "c = CHR 0x00" by (rule lower_char_nul)
  with c n show False by simp
qed

lemma np_str_id: "CHR 0x00 \<notin> set s \<Longrightarrow> np_str s = s"
  by (cases s rule: rev_cases) (auto simp: np_str_def)

lemma transform_text_nul_free:
  assumes "\<not> do_stemming self" and "remove_punctuation self \<or> CHR 0x00 \<notin> set x"
  shows "CHR 0x00 \<notin> set (transform_text stemmer self x)"
proof -
  define h where "h = (if strip_headers self then strip_headers_fn x else x)"
  define w0 where "w0 = (if lowercase self then str_lower h else h)"
  define z1 where "z1 = (if replace_urls self then replace_urls_fn w0 else w0)"
  define z2 where "z2 = (if replace_numbers self then replace_numbers_fn z1 else z1)"
  define z3 where "z3 = (if remove_punctuation self then remove_punct z2 else z2)"
  have ty: "transform_text stemmer self x = collapse_ws z3"
    using assms(1) by (simp add: transform_text_def Let_def h_def w0_def z1_def z2_def z3_def)
  have "CHR 0x00 \<notin> set z3"
  proof (cases "remove_punctuation self")
    case True
    then have "\<forall>c \<in> set z3. is_word c \<or> is_space c"
      using remove_punct_chars [of z2] by (simp add: z3_def)
    with nul_facts(1,2) show ?thesis by blast
  next
    case False
    with assms(2) have "CHR 0x00 \<notin> set x" by simp
    then have "CHR 0x00 \<notin> set h"
      using strip_headers_set [of x] by (auto simp: h_def)
    then have "CHR 0x00 \<notin> set w0"
      using str_lower_nul [of h] by (simp add: w0_def)
    then have "CHR 0x00 \<notin> set z1"
      using url_sub_set [of "'' URL ''" w0] nul_facts(3)
      by (auto simp: z1_def replace_urls_fn_def)
    then have "CHR 0x00 \<notin> set z2"
      using num_sub_set [of "'' NUMBER ''" None z1] nul_facts(4)
      by (auto simp: z2_def replace_numbers_fn_def)
    with False show ?thesis by (simp add: z3_def)
  qed
  moreover have "set (collapse_ws z3) \<subseteq> insert (CHR '' '') (set z3)" by (rule collapse_ws_set)
  ultimately show ?thesis unfolding ty by auto
qed

lemma bare_pipeline: "transform_text stemmer bare_preprocessor x = collapse_ws x"
  by (simp add: transform_text_def bare_preprocessor_def)

lemma stemming_pipeline:
  "transform_text stemmer stemming_preprocessor x =
     collapse_ws (stem stemmer (remove_punct (replace_numbers_fn (replace_urls_fn
       (str_lower (strip_headers_fn x))))))"
  by (simp add: transform_text_def stemming_preprocessor_def default_preprocessor_def)

lemma url_example_array:
  "np_str ''visit URL now'' = ''visit URL now''" "np_str ''visit url now'' = ''visit url now''"
  by code_simp+

lemma url_example_twice:
  "transform stemmer default_preprocessor [''visit http://x.com/y now''] = [''visit URL now'']"
  "transform stemmer default_preprocessor [''visit URL now''] = [''visit url now'']"
  by (simp_all add: transform_def np_array_def url_example url_example_second_pass
      url_example_array)

lemma nul_example_steps:
  "collapse_ws [CHR ''a'', CHR '' '', CHR 0x00] = [CHR ''a'', CHR '' '', CHR 0x00]"
  "np_str [CHR ''a'', CHR '' '', CHR 0x00] = [CHR ''a'', CHR '' '']"
  "collapse_ws [CHR ''a'', CHR '' ''] = [CHR ''a'']"
  "np_str [CHR ''a''] = [CHR ''a'']"
  by code_simp+

lemma nul_example_twice:
  "transform stemmer bare_preprocessor [[CHR ''a'', CHR '' '', CHR 0x00]] = [[CHR ''a'', CHR '' '']]"
  "transform stemmer bare_preprocessor [[CHR ''a'', CHR '' '']] = [[CHR ''a'']]"
  by (simp_all add: transform_def np_array_def bare_pipeline nul_example_steps)

lemma stemming_example_steps:
  "strip_headers_fn ''agreed'' = ''agreed''"
  "str_lower ''agreed'' = ''agreed''"
  "replace_urls_fn ''agreed'' = ''agreed''"
  "replace_numbers_fn ''agreed'' = ''agreed''"
  "remove_punct ''agreed'' = ''agreed''"
  "stem example_stemmer ''agreed'' = ''agre''"
  "collapse_ws ''agre'' = ''agre''"
  "np_str ''agre'' = ''agre''"
  "strip_headers_fn ''agre'' = ''agre''"
  "str_lower ''agre'' = ''agre''"
  "replace_urls_fn ''agre'' = ''agre''"
  "replace_numbers_fn ''agre'' = ''agre''"
  "remove_punct ''agre'' = ''agre''"
  "stem example_stemmer ''agre'' = ''agr''"
  "collapse_ws ''agr'' = ''agr''"
  "np_str ''agr'' = ''agr''"
  by code_simp+

lemma stemming_example_twice:
  "transform example_stemmer stemming_preprocessor [''agreed''] = [''agre'']"
  "transform example_stemmer stemming_preprocessor [''agre''] = [''agr'']"
  by (simp_all only: transform_def np_array_def list.map stemming_pipeline
      stemming_example_steps)

text \<open>
  Claim C1, as stated: for every text and every configuration, \<open>transform\<close> applied
  twice gives the result of applying it once. It fails in three ways. In the default
  configuration the URL is replaced by \<open>URL\<close> after the lowercasing, and the second
  application lowercases that token: \<open>"visit http://x.com/y now"\<close> gives
  \<open>"visit URL now"\<close> and then \<open>"visit url now"\<close>. With every step switched off, the
  text \<open>a\<close>, space, NUL loses the NUL in the array, and the second application strips
  the space that now ends it. With stemming, a stemmer that is not idempotent on a word
  stems it further: \<open>agreed\<close> gives \<open>agre\<close> and then \<open>agr\<close>.
\<close>

theorem transform_idempotent_counterexample:
  "\<not> (transform id default_preprocessor
          (transform id default_preprocessor [''visit http://x.com/y now''])
        = transform id default_preprocessor [''visit http://x.com/y now''])
   \<and> \<not> (transform id bare_preprocessor
            (transform id bare_preprocessor [[CHR ''a'', CHR '' '', CHR 0x00]])
          = transform id bare_preprocessor [[CHR ''a'', CHR '' '', CHR 0x00]])
   \<and> \<not> (transform example_stemmer stemming_preprocessor
            (transform example_stemmer stemming_preprocessor [''agreed''])
          = transform example_stemmer stemming_preprocessor [''agreed''])"
  by (simp add: url_example_twice nul_example_twice stemming_example_twice)

text \<open>
  Claim C1, amended: with stemming disabled, and for texts without a NUL character or
  with the punctuation removed, \<open>transform\<close> applied to its own result changes at most
  the letter case: every text of the result is that of the first result, lowercased when
  \<open>lowercase\<close> is set. So \<open>transform\<close> is idempotent on these texts whenever
  \<open>lowercase\<close> is off, or neither \<open>replace_urls\<close> nor \<open>replace_numbers\<close> is on.
\<close>

theorem transform_twice:
  assumes "\<not> do_stemming self"
    and "remove_punctuation self \<or> (\<forall>x \<in> set X. CHR 0x00 \<notin> set x)"
  shows "transform stemmer self (transform stemmer self X)
           = (if lowercase self then map str_lower (transform stemmer self X)
              else transform stemmer self X)
       \<and> (\<not> lowercase self \<or> (\<not> replace_urls self \<and> \<not> replace_numbers self) \<longrightarrow>
            transform stemmer self (transform stemmer self X) = transform stemmer self X)"
proof -
  have nf: "CHR 0x00 \<notin> set (transform_text stemmer self x)" if "x \<in> set X" for x
    using assms(2) that by (intro transform_text_nul_free [OF assms(1)]) auto
  have nf2: "CHR 0x00 \<notin> set (transform_text stemmer self (transform_text stemmer self x))"
    if "x \<in> set X" for x
    using nf [OF that] by (intro transform_text_nul_free [OF assms(1)]) simp
  have once: "transform stemmer self X = map (transform_text stemmer self) X"
    unfolding transform_def np_array_def map_map
    by (rule map_cong [OF refl]) (simp add: np_str_id [OF nf])
  have twice: "transform stemmer self (map (transform_text stemmer self) X)
      = map (\<lambda>x. transform_text stemmer self (transform_text stemmer self x)) X"
    unfolding transform_def np_array_def map_map
    by (rule map_cong [OF refl]) (simp add: np_str_id [OF nf2])
  have a: "map (\<lambda>x. transform_text stemmer self (transform_text stemmer self x)) X
      = (if lowercase self then map str_lower (map (transform_text stemmer self) X)
         else map (transform_text stemmer self) X)"
    using transform_text_twice [OF assms(1), of stemmer] by simp
  have b: "map (\<lambda>x. transform_text stemmer self (transform_text stemmer self x)) X
      = map (transform_text stemmer self) X"
    if c: "\<not> lowercase self \<or> (\<not> replace_urls self \<and> \<not> replace_numbers self)"
  proof (rule map_cong [OF refl])
    fix x
    from transform_text_twice [OF assms(1), of stemmer x] c
    show "transform_text stemmer self (transform_text stemmer self x)
        = transform_text stemmer self x" by blast
  qed
  show ?thesis unfolding once twice by (intro conjI impI) (rule a, erule b)
qed

theorem transform_twice_witness:
  "transform id default_preprocessor
     (transform id default_preprocessor [''visit http://x.com/y now'', ''call 555-1234 or 42.5 now''])
     = [''visit url now'', ''call number number or number now'']
   \<and> transform id (default_preprocessor\<lparr>lowercase := False\<rparr>)
       (transform id (default_preprocessor\<lparr>lowercase := False\<rparr>) [''visit http://x.com/y now''])
     = transform id (default_preprocessor\<lparr>lowercase := False\<rparr>) [''visit http://x.com/y now'']"
proof -
  have h1: "\<not> do_stemming default_preprocessor" "remove_punctuation default_preprocessor"
    by (simp_all add: default_preprocessor_def)
  have h2: "\<not> do_stemming (default_preprocessor\<lparr>lowercase := False\<rparr>)"
    "remove_punctuation (default_preprocessor\<lparr>lowercase := False\<rparr>)"
    by (simp_all add: default_preprocessor_def)
  have l: "lowercase default_preprocessor" by (simp add: default_preprocessor_def)
  have np: "np_str ''call NUMBER NUMBER or NUMBER now'' = ''call NUMBER NUMBER or NUMBER now''"
    "str_lower ''call NUMBER NUMBER or NUMBER now'' = ''call number number or number now''"
    "str_lower ''visit URL now'' = ''visit url now''"
    by code_simp+
  have once: "transform id default_preprocessor
      [''visit http://x.com/y now'', ''call 555-1234 or 42.5 now'']
      = [''visit URL now'', ''call NUMBER NUMBER or NUMBER now'']"
    by (simp add: transform_def np_array_def url_example number_example url_example_array np)
  from transform_twice [OF h1(1) disjI1 [OF h1(2)], of id
      "[''visit http://x.com/y now'', ''call 555-1234 or 42.5 now'']"]
  have "transform id default_preprocessor
     (transform id default_preprocessor [''visit http://x.com/y now'', ''call 555-1234 or 42.5 now''])
     = map str_lower
         (transform id default_preprocessor
            [''visit http://x.com/y now'', ''call 555-1234 or 42.5 now''])"
    using l by simp
  then have a: "transform id default_preprocessor
     (transform id default_preprocessor [''visit http://x.com/y now'', ''call 555-1234 or 42.5 now''])
     = [''visit url now'', ''call number number or number now'']"
    unfolding once by (simp add: np)
  from transform_twice [OF h2(1) disjI1 [OF h2(2)], of id "[''visit http://x.com/y now'']"]
  have b: "transform id (default_preprocessor\<lparr>lowercase := False\<rparr>)
       (transform id (default_preprocessor\<lparr>lowercase := False\<rparr>) [''visit http://x.com/y now''])
     = transform id (default_preprocessor\<lparr>lowercase := False\<rparr>) [''visit http://x.com/y now'']"
    by (simp add: default_preprocessor_def)
  from a b show ?thesis by (rule conjI)
qed

section \<open>Properties of the prediction service\<close>

lemma load_model_loaded:
  "load_model env s = (m, s') \<Longrightarrow> model_loaded s' \<and> (m \<noteq> None \<longrightarrow> model_var s' = m)"
  by (auto simp: load_model_def split: if_splits load_env.splits)

lemma load_model_again: "model_loaded s \<Longrightarrow> load_model env s = (model_var s, s)"
  by (simp add: load_model_def)

lemma scam_keywords_distinct: "distinct scam_keywords"
  by (simp add: scam_keywords_def)

lemma scam_keywords_length: "length scam_keywords = 23"
  by (simp add: scam_keywords_def)

lemma scam_score_card: "scam_score t = card {k \<in> set scam_keywords. sublist k t}"
proof -
  have "distinct (filter (\<lambda>k. py_in k t) scam_keywords)"
    using scam_keywords_distinct by (rule distinct_filter)
  from distinct_card [OF this] show ?thesis
    by (simp add: scam_score_def py_in_sublist)
qed

lemma fallback_state:
  assumes "model_var s = None" and "model_loaded s"
  shows "load_model env s = (None, s)"
    and "classify_email env text s = (fallback_classification text, s)"
    and "get_prediction_confidence env1 env2 text s = ((fallback_classification text, 0.85), s)"
  using assms by (simp_all add: load_model_def classify_email_def get_prediction_confidence_def)

text \<open>
  Claim C5: the keyword heuristic decides when there is no usable artifact (\<open>_model\<close>
  is \<open>None\<close> after the load attempt) and when the artifact is there but both of its
  calls raise. Then, for every text, the score is the number of the 23 distinct phrases
  that occur in the lowercased text, each counted once however often it occurs; the
  result is \<open>("Spam", 0.85)\<close> when that number is at least 3 and \<open>("Not Spam", 0.85)\<close>
  otherwise. The function returns this value for every text: no branch of this path
  raises. (A load that returns \<open>None\<close> and leaves \<open>_model\<close> set is not this mode: the
  prediction then comes from the artifact.)
\<close>

theorem fallback_mode_prediction:
  assumes "load_model env1 s = (r, s')"
    and "model_var s' = None
       \<or> (\<exists>m. r = Some m
             \<and> ((\<exists>e. predict_proba m text = Inl e) \<or> predict_proba m text = Inr [])
             \<and> (\<exists>e. predict m text = Inl e))"
  shows "get_prediction_confidence env1 env2 text s
           = ((if 3 \<le> card {k \<in> set scam_keywords. sublist k (str_lower text)}
               then ''Spam'' else ''Not Spam'', 0.85), s')
         \<and> scam_score (str_lower text)
             = card {k \<in> set scam_keywords. sublist k (str_lower text)}
         \<and> length scam_keywords = 23 \<and> distinct scam_keywords
         \<and> scam_score (str_lower text) \<le> 23"
proof -
  from load_model_loaded [OF assms(1)]
  have ld: "model_loaded s'" and rv: "r \<noteq> None \<longrightarrow> model_var s' = r" by simp_all
  have "get_prediction_confidence env1 env2 text s = ((fallback_classification text, 0.85), s')"
    using assms(2)
  proof
    assume n: "model_var s' = None"
    with rv have r: "r = None" by auto
    from fallback_state(2) [OF n ld]
    have "classify_email env2 text s' = (fallback_classification text, s')" .
    with assms(1) r show ?thesis by (simp add: get_prediction_confidence_def)
  next
    assume "\<exists>m. r = Some m
             \<and> ((\<exists>e. predict_proba m text = Inl e) \<or> predict_proba m text = Inr [])
             \<and> (\<exists>e. predict m text = Inl e)"
    then obtain m e where r: "r = Some m"
      and pp: "(\<exists>e. predict_proba m text = Inl e) \<or> predict_proba m text = Inr []"
      and p: "predict m text = Inl e" by blast
    from rv r ld have "load_model env2 s' = (Some m, s')" by (simp add: load_model_again)
    with p have c: "classify_email env2 text s' = (fallback_classification text, s')"
      by (simp add: classify_email_def)
    from pp show ?thesis
    proof
      assume "\<exists>e. predict_proba m text = Inl e"
      then obtain e' where "predict_proba m text = Inl e'" ..
      with assms(1) r c show ?thesis by (simp add: get_prediction_confidence_def)
    next
      assume "predict_proba m text = Inr []"
      with assms(1) r c show ?thesis by (simp add: get_prediction_confidence_def argmax_def)
    qed
  qed
  moreover have "scam_score (str_lower text) \<le> 23"
    using length_filter_le [of "\<lambda>k. py_in k (str_lower text)" scam_keywords]
    by (simp add: scam_score_def scam_keywords_length)
  ultimately show ?thesis
    by (simp add: fallback_classification_def scam_score_card scam_keywords_length
        scam_keywords_distinct)
qed

theorem fallback_mode_prediction_witness:
  "load_model FileMissing initial_state = (None, \<lparr> model_var = None, model_loaded = True \<rparr>)
   \<and> get_prediction_confidence FileMissing FileMissing
         ''URGENT! verify your account now, click here, winner!'' initial_state
       = ((''Spam'', 0.85), \<lparr> model_var = None, model_loaded = True \<rparr>)
   \<and> load_model (LoadReturns faulty_artifact) initial_state
       = (Some faulty_artifact, \<lparr> model_var = Some faulty_artifact, model_loaded = True \<rparr>)
   \<and> get_prediction_confidence (LoadReturns faulty_artifact) FileMissing
         ''urgent: verify, verify, verify'' initial_state
       = ((''Not Spam'', 0.85), \<lparr> model_var = Some faulty_artifact, model_loaded = True \<rparr>)"
proof -
  have l1: "load_model FileMissing initial_state
      = (None, \<lparr> model_var = None, model_loaded = True \<rparr>)"
    by (simp add: load_model_def initial_state_def)
  have h1: "model_var \<lparr> model_var = None, model_loaded = True \<rparr> = None
       \<or> (\<exists>m. (None :: Artifact option) = Some m
             \<and> ((\<exists>e. predict_proba m ''URGENT! verify your account now, click here, winner!''
                       = Inl e)
                \<or> predict_proba m ''URGENT! verify your account now, click here, winner!''
                       = Inr [])
             \<and> (\<exists>e. predict m ''URGENT! verify your account now, click here, winner!'' = Inl e))"
    by simp
  have sc1: "scam_score (str_lower ''URGENT! verify your account now, click here, winner!'') = 5"
    by code_simp
  have l2: "load_model (LoadReturns faulty_artifact) initial_state
      = (Some faulty_artifact, \<lparr> model_var = Some faulty_artifact, model_loaded = True \<rparr>)"
    by (simp add: load_model_def initial_state_def)
  have h2: "model_var \<lparr> model_var = Some faulty_artifact, model_loaded = True \<rparr> = None
       \<or> (\<exists>m. Some faulty_artifact = Some m
             \<and> ((\<exists>e. predict_proba m ''urgent: verify, verify, verify'' = Inl e)
                \<or> predict_proba m ''urgent: verify, verify, verify'' = Inr [])
             \<and> (\<exists>e. predict m ''urgent: verify, verify, verify'' = Inl e))"
    by (simp add: faulty_artifact_def)
  have sc2: "scam_score (str_lower ''urgent: verify, verify, verify'') = 2"
    by code_simp
  from fallback_mode_prediction [OF l1 h1, of FileMissing,
      unfolded scam_score_card [symmetric] sc1]
  have a: "get_prediction_confidence FileMissing FileMissing
         ''URGENT! verify your account now, click here, winner!'' initial_state
       = ((''Spam'', 0.85), \<lparr> model_var = None, model_loaded = True \<rparr>)"
    by simp
  from fallback_mode_prediction [OF l2 h2, of FileMissing,
      unfolded scam_score_card [symmetric] sc2]
  have b: "get_prediction_confidence (LoadReturns faulty_artifact) FileMissing
         ''urgent: verify, verify, verify'' initial_state
       = ((''Not Spam'', 0.85), \<lparr> model_var = Some faulty_artifact, model_loaded = True \<rparr>)"
    by simp
  from l1 a l2 b show ?thesis by simp
qed

text \<open>
  Claim C6: when the artifact's two class probabilities are equal, the label is
  \<open>"Not Spam"\<close> (the first index wins the tie of \<open>argmax\<close>) and the confidence is the
  shared probability.
\<close>

theorem tie_break_not_spam:
  assumes "load_model env1 s = (Some m, s')" and "predict_proba m text = Inr [p, p]"
  shows "get_prediction_confidence env1 env2 text s = ((''Not Spam'', p), s')"
  using assms by (simp add: get_prediction_confidence_def argmax_def)

theorem tie_break_not_spam_witness:
  "load_model (LoadReturns tie_artifact) initial_state
     = (Some tie_artifact, \<lparr> model_var = Some tie_artifact, model_loaded = True \<rparr>)
   \<and> predict_proba tie_artifact ''hello there'' = Inr [0.5, 0.5]
   \<and> get_prediction_confidence (LoadReturns tie_artifact) FileMissing ''hello there''
        initial_state
       = ((''Not Spam'', 0.5), \<lparr> model_var = Some tie_artifact, model_loaded = True \<rparr>)"
proof -
  have h1: "load_model (LoadReturns tie_artifact) initial_state
      = (Some tie_artifact, \<lparr> model_var = Some tie_artifact, model_loaded = True \<rparr>)"
    by (simp add: load_model_def initial_state_def)
  have h2: "predict_proba tie_artifact ''hello there'' = Inr [0.5, 0.5]"
    by (simp add: tie_artifact_def)
  from tie_break_not_spam [OF h1 h2] h1 h2 show ?thesis by blast
qed

text \<open>
  Claim C7: when an artifact is available and its probability call raises while its
  plain prediction succeeds, the label is that of the plain prediction (\<open>1\<close> is
  \<open>"Spam"\<close>, anything else \<open>"Not Spam"\<close>) and the confidence is \<open>0.85\<close>.
\<close>

theorem no_probability_fallback:
  assumes "load_model env1 s = (Some m, s')" and "predict_proba m text = Inl e"
    and "predict m text = Inr v"
  shows "get_prediction_confidence env1 env2 text s
           = ((if v = 1 then ''Spam'' else ''Not Spam'', 0.85), s')"
proof -
  from load_model_loaded [OF assms(1)] have "load_model env2 s' = (Some m, s')"
    by (simp add: load_model_again)
  with assms show ?thesis
    by (simp add: get_prediction_confidence_def classify_email_def)
qed

theorem no_probability_fallback_witness:
  "load_model (LoadReturns plain_artifact) initial_state
     = (Some plain_artifact, \<lparr> model_var = Some plain_artifact, model_loaded = True \<rparr>)
   \<and> predict_proba plain_artifact ''hello there'' = Inl Exception
   \<and> predict plain_artifact ''hello there'' = Inr 1
   \<and> get_prediction_confidence (LoadReturns plain_artifact) FileMissing ''hello there''
        initial_state
       = ((''Spam'', 0.85), \<lparr> model_var = Some plain_artifact, model_loaded = True \<rparr>)"
proof -
  have h1: "load_model (LoadReturns plain_artifact) initial_state
      = (Some plain_artifact, \<lparr> model_var = Some plain_artifact, model_loaded = True \<rparr>)"
    by (simp add: load_model_def initial_state_def)
  have h2: "predict_proba plain_artifact ''hello there'' = Inl Exception"
    by (simp add: plain_artifact_def)
  have h3: "predict plain_artifact ''hello there'' = Inr 1"
    by (simp add: plain_artifact_def)
  from no_probability_fallback [OF h1 h2 h3, of FileMissing] h1 h2 h3 show ?thesis by simp
qed

lemma run_calls_fallback:
  assumes "model_var s = None" and "model_loaded s"
  shows "run_calls calls s = s"
proof (induction calls)
  case Nil
  show ?case by simp
next
  case (Cons c cs)
  have "state_after c s = s"
    by (cases c) (simp_all add: fallback_state [OF assms])
  with Cons show ?case by simp
qed

text \<open>
  The two failures that leave \<open>_model\<close> at \<open>None\<close>: when the file is missing or
  \<open>joblib.load\<close> raises, \<open>load_model\<close> returns \<open>None\<close> and sets the flag; after any
  later calls on the module the state is the same, \<open>load_model\<close> returns \<open>None\<close>
  whatever a new attempt would meet, and every prediction is that of the keyword
  heuristic.
\<close>

lemma load_failure_without_artifact:
  assumes "env = FileMissing \<or> env = LoadRaises"
    and "s1 = snd (load_model env initial_state)"
    and "s2 = run_calls calls s1"
  shows "fst (load_model env initial_state) = None \<and> model_loaded s1
       \<and> load_model env' s2 = (None, s2)
       \<and> classify_email env' text s2 = (fallback_classification text, s2)
       \<and> get_prediction_confidence env1 env2 text s2
           = ((fallback_classification text, 0.85), s2)"
proof -
  from assms(1,2) have a: "fst (load_model env initial_state) = None"
    and s1: "model_var s1 = None" "model_loaded s1"
    by (auto simp: load_model_def initial_state_def)
  from run_calls_fallback [OF s1] assms(3) have "s2 = s1" by simp
  with a s1 fallback_state [OF s1] show ?thesis by simp
qed

lemma hello_there_not_spam: "fallback_classification ''hello there'' = ''Not Spam''"
  by code_simp

text \<open>
  Claim C8: once loading has failed, \<open>load_model\<close> returns \<open>None\<close> on every later call
  and every later prediction is that of the keyword heuristic. The code breaks this
  when the failure comes after the assignment of \<open>_model\<close>: \<open>joblib.load\<close> returns an
  object, a later statement of the \<open>try\<close> block raises, and the handler reports the
  error and returns \<open>None\<close> with \<open>_model\<close> still set. The flag is set and the load is
  not retried, but every later call of \<open>load_model\<close> returns the object, and the
  predictions come from it: here \<open>("Spam", 0.85)\<close> from its \<open>predict\<close>, where the
  keyword heuristic says \<open>"Not Spam"\<close>, already in the request that met the failure.
\<close>

theorem load_error_after_assignment:
  "load_model (LoadReturnsThenRaises plain_artifact) initial_state
     = (None, \<lparr> model_var = Some plain_artifact, model_loaded = True \<rparr>)
   \<and> load_model env \<lparr> model_var = Some plain_artifact, model_loaded = True \<rparr>
     = (Some plain_artifact, \<lparr> model_var = Some plain_artifact, model_loaded = True \<rparr>)
   \<and> classify_email env ''hello there'' \<lparr> model_var = Some plain_artifact, model_loaded = True \<rparr>
     = (''Spam'', \<lparr> model_var = Some plain_artifact, model_loaded = True \<rparr>)
   \<and> get_prediction_confidence env1 env2 ''hello there''
        \<lparr> model_var = Some plain_artifact, model_loaded = True \<rparr>
     = ((''Spam'', 0.85), \<lparr> model_var = Some plain_artifact, model_loaded = True \<rparr>)
   \<and> get_prediction_confidence (LoadReturnsThenRaises plain_artifact) env2 ''hello there''
        initial_state
     = ((''Spam'', 0.85), \<lparr> model_var = Some plain_artifact, model_loaded = True \<rparr>)
   \<and> fallback_classification ''hello there'' = ''Not Spam''"
  by (simp add: load_model_def classify_email_def get_prediction_confidence_def
      initial_state_def plain_artifact_def hello_there_not_spam)

lemma sublist_str_lower: "sublist k t \<Longrightarrow> sublist (str_lower k) (str_lower t)"
proof -
  assume "sublist k t"
  then obtain ps ss where "t = ps @ k @ ss" by (auto simp: sublist_def)
  then have "str_lower t = str_lower ps @ str_lower k @ str_lower ss"
    by (simp add: str_lower_def)
  then show ?thesis unfolding sublist_def by blast
qed

lemma filter_two:
  assumes "a \<in> set xs" "b \<in> set xs" "a \<noteq> b" "P a" "P b"
  shows "2 \<le> length (filter P xs)"
proof -
  have "{a, b} \<subseteq> set (filter P xs)" using assms by simp
  then have "card {a, b} \<le> card (set (filter P xs))" by (intro card_mono) simp_all
  also have "\<dots> \<le> length (filter P xs)" by (rule card_length)
  finally show ?thesis using assms(3) by simp
qed

text \<open>
  Claim C10: the score is the number of the keywords that occur as substrings of the
  lowercased text, so nested phrases each count: in a text in which
  \<open>verify your account\<close> occurs, as written or after lowercasing, the two distinct
  entries \<open>verify\<close> and \<open>verify your account\<close> are both among the keywords counted, and
  the score is at least 2.
\<close>

theorem nested_keywords_score:
  assumes "sublist ''verify your account'' text
         \<or> sublist ''verify your account'' (str_lower text)"
  shows "scam_score (str_lower text)
           = card {k \<in> set scam_keywords. sublist k (str_lower text)}
       \<and> ''verify'' \<in> {k \<in> set scam_keywords. sublist k (str_lower text)}
       \<and> ''verify your account'' \<in> {k \<in> set scam_keywords. sublist k (str_lower text)}
       \<and> ''verify'' \<noteq> ''verify your account''
       \<and> 2 \<le> scam_score (str_lower text)"
proof -
  have "str_lower ''verify your account'' = ''verify your account''" by code_simp
  with assms sublist_str_lower [of "''verify your account''" "text"]
  have a: "sublist ''verify your account'' (str_lower text)" by auto
  have "sublist ''verify'' ''verify your account''" by (simp add: py_in_sublist [symmetric])
  from this a have b: "sublist ''verify'' (str_lower text)"
    by (rule sublist_order.order_trans)
  have m1: "''verify'' \<in> {k \<in> set scam_keywords. sublist k (str_lower text)}"
    using b by (simp add: scam_keywords_def)
  have m2: "''verify your account'' \<in> {k \<in> set scam_keywords. sublist k (str_lower text)}"
    using a by (simp add: scam_keywords_def)
  have two: "2 \<le> scam_score (str_lower text)" unfolding scam_score_def
    by (rule filter_two [of "''verify''" _ "''verify your account''"])
       (simp_all add: scam_keywords_def py_in_sublist a b)
  from m1 m2 two show ?thesis by (simp add: scam_score_card)
qed

theorem nested_keywords_score_witness:
  "sublist ''verify your account'' (str_lower ''Please VERIFY your account'')
   \<and> scam_score (str_lower ''Please VERIFY your account'') = 2
   \<and> card {k \<in> set scam_keywords. sublist k (str_lower ''Please VERIFY your account'')} = 2
   \<and> ''verify'' \<in> {k \<in> set scam_keywords. sublist k (str_lower ''Please VERIFY your account'')}
   \<and> ''verify your account''
        \<in> {k \<in> set scam_keywords. sublist k (str_lower ''Please VERIFY your account'')}"
proof -
  have "py_in ''verify your account'' (str_lower ''Please VERIFY your account'')"
    by code_simp
  then have s: "sublist ''verify your account'' (str_lower ''Please VERIFY your account'')"
    unfolding py_in_sublist .
  then have h: "sublist ''verify your account'' ''Please VERIFY your account''
      \<or> sublist ''verify your account'' (str_lower ''Please VERIFY your account'')"
    by (rule disjI2)
  have sc: "scam_score (str_lower ''Please VERIFY your account'') = 2" by code_simp
  from nested_keywords_score [OF h] have
    c: "scam_score (str_lower ''Please VERIFY your account'')
          = card {k \<in> set scam_keywords. sublist k (str_lower ''Please VERIFY your account'')}"
    and m1: "''verify''
          \<in> {k \<in> set scam_keywords. sublist k (str_lower ''Please VERIFY your account'')}"
    and m2: "''verify your account''
          \<in> {k \<in> set scam_keywords. sublist k (str_lower ''Please VERIFY your account'')}"
    by blast+
  from c sc have cd: "card {k \<in> set scam_keywords.
      sublist k (str_lower ''Please VERIFY your account'')} = 2" by simp
  show ?thesis
    by (rule conjI [OF s conjI [OF sc conjI [OF cd conjI [OF m1 m2]]]])
qed

section \<open>Properties of the route \<open>/predict\<close>\<close>





end
